theory Spec2Isabelle
  imports Main
begin

section \<open>bgrep: the ring buffer of context slots\<close>

text \<open>
  The development follows \<^verbatim>\<open>src/bgrep.cpp\<close>. A byte of slot storage is a
  \<open>char option\<close>: \<open>None\<close> is the indeterminate value of storage that
  \<^verbatim>\<open>new char[_buffer_size]\<close> returned and that nothing has written yet,
  \<open>Some c\<close> a byte that a reader stored. The C++ \<^verbatim>\<open>int\<close> fields are
  modelled by \<open>int\<close>; every index the program computes is non-negative, where the
  truncating \<^verbatim>\<open>%\<close> of C++ and \<open>mod\<close> agree.
\<close>

type_synonym byte = "char option"

subsection \<open>Target: the set of literal patterns\<close>

text \<open>
  \<^verbatim>\<open>memmem(haystack, haystacklen, needle, needlelen)\<close> of the C library returns a
  pointer to the first occurrence of the needle in the haystack, or \<^verbatim>\<open>NULL\<close>;
  an empty needle occurs at the start of every haystack. The model returns the offset.
\<close>

fun starts_with :: "'a list \<Rightarrow> 'a list \<Rightarrow> bool" where
  "starts_with [] hs = True"
| "starts_with (n # ns) [] = False"
| "starts_with (n # ns) (h # hs) = (n = h \<and> starts_with ns hs)"

fun memmem :: "'a list \<Rightarrow> 'a list \<Rightarrow> nat option" where
  "memmem [] needle = (if starts_with needle [] then Some 0 else None)"
| "memmem (h # hs) needle =
     (if starts_with needle (h # hs) then Some 0
      else map_option Suc (memmem hs needle))"

text \<open>\<^verbatim>\<open>Target::addTarget\<close> (lines 153--156): \<^verbatim>\<open>push_back\<close>.\<close>

definition addTarget :: "string list \<Rightarrow> string \<Rightarrow> string list" where
  "addTarget targets target = targets @ [target]"

text \<open>
  \<^verbatim>\<open>Target::match\<close> (lines 158--171): the loop over \<^verbatim>\<open>_targets\<close> in index
  order, left at the first target that \<^verbatim>\<open>memmem\<close> finds in \<^verbatim>\<open>str[0, len)\<close>.
\<close>

fun match :: "string list \<Rightarrow> byte list \<Rightarrow> nat \<Rightarrow> bool" where
  "match [] str len = False"
| "match (target # targets) str len =
     (if memmem (take len str) (map Some target) \<noteq> None then True
      else match targets str len)"

subsection \<open>Reader and Collector\<close>

text \<open>
  \<^verbatim>\<open>Reader::read(buffer, buffer_size)\<close> is virtual. A reader is a function from
  its own state and the requested size to the returned \<^verbatim>\<open>int\<close>, the bytes it
  stored at the start of \<^verbatim>\<open>buffer\<close>, and its next state. \<^verbatim>\<open>tell\<close> only
  feeds the notices printed on standard error, which are left out.
\<close>

type_synonym 'r Reader = "'r \<Rightarrow> int \<Rightarrow> (int \<times> string) \<times> 'r"

text \<open>
  \<^verbatim>\<open>StreamReader::read\<close> (lines 41--48) over a \<^verbatim>\<open>std::istream\<close>: the stream is
  the characters not yet extracted and its \<^verbatim>\<open>eofbit\<close>, which
  \<^verbatim>\<open>istream::read\<close> sets when it extracts fewer characters than requested.
\<close>

record istream =
  rest :: string
  eofbit :: bool

definition StreamReader_read :: "istream Reader" where
  "StreamReader_read s buffer_size =
     (if eofbit s then ((- 1, []), s)
      else let k = min (nat buffer_size) (length (rest s))
           in ((int k, take k (rest s)),
               \<lparr>rest = drop k (rest s), eofbit = (k < nat buffer_size)\<rparr>))"

text \<open>
  A reader honours the size it is given when it never stores more bytes than that.
  One that stores more writes past the slot, which C++ leaves undefined; the properties
  that depend on the slots' lengths assume this contract.
\<close>

definition reader_ok :: "'r Reader \<Rightarrow> bool" where
  "reader_ok read = (\<forall>r n. length (snd (fst (read r n))) \<le> nat n)"

text \<open>
  The collector is the log of its \<^verbatim>\<open>collect(buffer, buffer_size)\<close> calls: the
  slot whose storage was passed and the bytes it held. \<^verbatim>\<open>StreamCollector\<close>
  writes the bytes to its stream in call order.
\<close>

type_synonym Collector = "(nat \<times> byte list) list"

definition os_str :: "Collector \<Rightarrow> byte list" where
  "os_str col = concat (map snd col)"

subsection \<open>RingBuffer\<close>

record RingBuffer =
  buffer :: "byte list list"
  buffer_num :: int
  buffer_size :: int
  next_buffer_idx :: int
  matched_buffer_idx :: int
  target :: "string list"
  buffer_print_flag :: "nat list"

text \<open>
  The constructor (lines 193--209); a failed \<^verbatim>\<open>assert\<close> is \<open>None\<close>. The
  pointer \<^verbatim>\<open>_target\<close> is to a \<^verbatim>\<open>const Target\<close>, kept here as the list of its
  targets.
\<close>

definition RingBuffer_new :: "int \<Rightarrow> int \<Rightarrow> string list \<Rightarrow> RingBuffer option" where
  "RingBuffer_new num sz tgt =
     (if \<not> num > 0 then None
      else if \<not> sz > 0 then None
      else Some \<lparr>buffer = replicate (nat num) (replicate (nat sz) None),
                 buffer_num = num, buffer_size = sz,
                 next_buffer_idx = 0, matched_buffer_idx = - 1,
                 target = tgt,
                 buffer_print_flag = replicate (nat num) 1\<rparr>)"

text \<open>
  The field comment of the source reads \<^verbatim>\<open>// 0: not printed\<close>: a slot is pending,
  in the words of the specification, when its flag is 0.
\<close>

definition pending :: "RingBuffer \<Rightarrow> nat \<Rightarrow> bool" where
  "pending rb i = (buffer_print_flag rb ! i = 0)"

text \<open>
  \<^verbatim>\<open>RingBuffer::collectTo\<close> (lines 266--284). The body shared by the two loops:
\<close>

definition collect_slot :: "nat \<Rightarrow> RingBuffer \<times> Collector \<Rightarrow> RingBuffer \<times> Collector" where
  "collect_slot i st = (case st of (rb, col) \<Rightarrow>
     if buffer_print_flag rb ! i = 0
     then (rb\<lparr>buffer_print_flag := (buffer_print_flag rb)[i := 1]\<rparr>,
           col @ [(i, buffer rb ! i)])
     else (rb, col))"

definition collectTo :: "int \<Rightarrow> RingBuffer \<times> Collector \<Rightarrow> RingBuffer \<times> Collector" where
  "collectTo start st =
     fold collect_slot [0 ..< nat start]
       (fold collect_slot [nat start ..< nat (buffer_num (fst st))] st)"

text \<open>
  \<^verbatim>\<open>RingBuffer::readFrom\<close> (lines 219--264). Lines 221--226: take the slot under
  the cursor, advance the cursor, let the reader store into the slot (bytes beyond
  those stored keep their old value), clear the slot's flag.
\<close>

definition store :: "string \<Rightarrow> byte list \<Rightarrow> byte list" where
  "store bytes old = map Some bytes @ drop (length bytes) old"

definition mark :: "int \<Rightarrow> string \<Rightarrow> RingBuffer \<Rightarrow> RingBuffer" where
  "mark buffer_idx bytes rb =
     rb\<lparr>next_buffer_idx := (next_buffer_idx rb + 1) mod buffer_num rb,
        buffer := (buffer rb)[nat buffer_idx := store bytes (buffer rb ! nat buffer_idx)],
        buffer_print_flag := (buffer_print_flag rb)[nat buffer_idx := 0]\<rparr>"

text \<open>Lines 246--250: a match is looked for only when none is tracked.\<close>

definition detect :: "int \<Rightarrow> int \<Rightarrow> RingBuffer \<Rightarrow> RingBuffer" where
  "detect buffer_idx nread rb =
     (if matched_buffer_idx rb < 0
         \<and> match (target rb) (buffer rb ! nat buffer_idx) (nat nread)
      then rb\<lparr>matched_buffer_idx := buffer_idx\<rparr> else rb)"

text \<open>Lines 238--239 and 254--255: where a flush starts.\<close>

definition flush_start :: "RingBuffer \<Rightarrow> int" where
  "flush_start rb = (matched_buffer_idx rb + buffer_num rb div 2) mod buffer_num rb"

definition readFrom ::
  "'r Reader \<Rightarrow> RingBuffer \<times> 'r \<times> Collector \<Rightarrow> bool \<times> RingBuffer \<times> 'r \<times> Collector" where
  "readFrom read st = (case st of (rb, rd, col) \<Rightarrow>
     (case read rd (buffer_size rb) of ((nread, bytes), rd') \<Rightarrow>
        let buffer_idx = next_buffer_idx rb;
            rb1 = mark buffer_idx bytes rb
        in if nread \<le> 0 then
             (if matched_buffer_idx rb1 \<ge> 0 then
                (case collectTo (flush_start rb1) (rb1, col) of (rb2, col') \<Rightarrow>
                   (False, rb2\<lparr>matched_buffer_idx := - 1\<rparr>, rd', col'))
              else (False, rb1, rd', col))
           else
             let rb2 = detect buffer_idx nread rb1
             in if matched_buffer_idx rb2 \<ge> 0 then
                  (if next_buffer_idx rb2 = flush_start rb2 then
                     (case collectTo (flush_start rb2) (rb2, col) of (rb3, col') \<Rightarrow>
                        (True, rb3\<lparr>matched_buffer_idx := - 1\<rparr>, rd', col'))
                   else (True, rb2, rd', col))
                else (True, rb2, rd', col)))"

text \<open>
  The driver (lines 299 and 363): \<^verbatim>\<open>while (buffer.readFrom(&reader, &collector)) { }\<close>.
  With a reader that never reports exhaustion the loop does not end, which is \<open>None\<close>.
\<close>

partial_function (option) scan ::
  "'r Reader \<Rightarrow> RingBuffer \<times> 'r \<times> Collector \<Rightarrow> (RingBuffer \<times> 'r \<times> Collector) option" where
  "scan read st = (case readFrom read st of (again, st') \<Rightarrow>
     if again then scan read st' else Some st')"

text \<open>The same loop, left after at most \<open>k\<close> cycles; the flag tells whether it goes on.\<close>

fun scan_for ::
  "nat \<Rightarrow> 'r Reader \<Rightarrow> RingBuffer \<times> 'r \<times> Collector \<Rightarrow> bool \<times> RingBuffer \<times> 'r \<times> Collector" where
  "scan_for 0 read st = (True, st)"
| "scan_for (Suc k) read st = (case readFrom read st of (again, st') \<Rightarrow>
     if again then scan_for k read st' else (False, st'))"

subsection \<open>Notions used to state the properties\<close>

text \<open>What the reader returns and stores in the cycle that starts in a given state.\<close>

definition nread_of :: "'r Reader \<Rightarrow> RingBuffer \<Rightarrow> 'r \<Rightarrow> int" where
  "nread_of read rb rd = fst (fst (read rd (buffer_size rb)))"

definition bytes_of :: "'r Reader \<Rightarrow> RingBuffer \<Rightarrow> 'r \<Rightarrow> string" where
  "bytes_of read rb rd = snd (fst (read rd (buffer_size rb)))"

text \<open>The buffer after lines 221--226 of the cycle, and after lines 246--250.\<close>

definition marked :: "'r Reader \<Rightarrow> RingBuffer \<Rightarrow> 'r \<Rightarrow> RingBuffer" where
  "marked read rb rd = mark (next_buffer_idx rb) (bytes_of read rb rd) rb"

definition probed :: "'r Reader \<Rightarrow> RingBuffer \<Rightarrow> 'r \<Rightarrow> RingBuffer" where
  "probed read rb rd =
     detect (next_buffer_idx rb) (nread_of read rb rd) (marked read rb rd)"

text \<open>The slots in wrap-around order from \<open>start\<close>: start, ..., N-1, 0, ..., start-1.\<close>

definition flush_order :: "int \<Rightarrow> int \<Rightarrow> nat list" where
  "flush_order start num = [nat start ..< nat num] @ [0 ..< nat start]"

text \<open>
  The indices of a buffer are in range: the cursor is a slot, the matched index is
  \<open>-1\<close> or a slot, and the slot of a tracked match has not been printed.
\<close>

definition idx_inv :: "RingBuffer \<Rightarrow> bool" where
  "idx_inv rb \<longleftrightarrow>
     0 < buffer_num rb
     \<and> length (buffer rb) = nat (buffer_num rb)
     \<and> length (buffer_print_flag rb) = nat (buffer_num rb)
     \<and> 0 \<le> next_buffer_idx rb \<and> next_buffer_idx rb < buffer_num rb
     \<and> (matched_buffer_idx rb = - 1
          \<or> (0 \<le> matched_buffer_idx rb \<and> matched_buffer_idx rb < buffer_num rb))
     \<and> (0 \<le> matched_buffer_idx rb
          \<longrightarrow> buffer_print_flag rb ! nat (matched_buffer_idx rb) = 0)"

text \<open>Every slot has \<^verbatim>\<open>_buffer_size\<close> bytes.\<close>

definition slots_ok :: "RingBuffer \<Rightarrow> bool" where
  "slots_ok rb \<longleftrightarrow>
     0 < buffer_size rb \<and> (\<forall>s \<in> set (buffer rb). length s = nat (buffer_size rb))"

text \<open>The shape of the storage: slot count, slot size, the slots' lengths, flag count.\<close>

definition shape :: "RingBuffer \<Rightarrow> int \<times> int \<times> nat list \<times> nat" where
  "shape rb = (buffer_num rb, buffer_size rb, map length (buffer rb),
               length (buffer_print_flag rb))"

subsection \<open>States and set-ups of \<^verbatim>\<open>test()\<close>\<close>

text \<open>
  The buffer of the first test (4 slots of 4 bytes, target \<^verbatim>\<open>"ab"\<close>) after four
  cycles: the match is in slot 3 and every slot is pending.
\<close>

definition tracking_rb :: RingBuffer where
  "tracking_rb =
     \<lparr>buffer = [map Some ''0000'', map Some ''1111'', map Some ''2222'', map Some ''aaab''],
      buffer_num = 4, buffer_size = 4, next_buffer_idx = 0, matched_buffer_idx = 3,
      target = [''ab''], buffer_print_flag = [0, 0, 0, 0]\<rparr>"

definition istream_of :: "string \<Rightarrow> istream" where
  "istream_of s = \<lparr>rest = s, eofbit = False\<rparr>"

text \<open>
  A buffer of 6 slots of 2 bytes after a first cycle that read \<^verbatim>\<open>"ab"\<close>: the match
  is in slot 0 and the flush will start at slot 3.
\<close>

definition window_open_rb :: RingBuffer where
  "window_open_rb =
     \<lparr>buffer = [map Some ''ab'', [None, None], [None, None], [None, None], [None, None],
                [None, None]],
      buffer_num = 6, buffer_size = 2, next_buffer_idx = 1, matched_buffer_idx = 0,
      target = [''ab''], buffer_print_flag = [0, 1, 1, 1, 1, 1]\<rparr>"

text \<open>
  The collector's log and the buffer after at most \<open>k\<close> cycles of the driver loop.
\<close>

definition sink_after ::
  "nat \<Rightarrow> 'r Reader \<Rightarrow> RingBuffer \<times> 'r \<times> Collector \<Rightarrow> Collector" where
  "sink_after k read st = snd (snd (snd (scan_for k read st)))"

definition buffer_after ::
  "nat \<Rightarrow> 'r Reader \<Rightarrow> RingBuffer \<times> 'r \<times> Collector \<Rightarrow> RingBuffer" where
  "buffer_after k read st = fst (snd (scan_for k read st))"

text \<open>
  The set-up of the blocks of \<^verbatim>\<open>test()\<close> (lines 291--298): a buffer of \<open>num\<close>
  slots of \<open>sz\<close> bytes with the one target \<^verbatim>\<open>"ab"\<close>, a
  \<^verbatim>\<open>StreamReader\<close> over the input and an empty collector.
\<close>

definition test_setup :: "int \<Rightarrow> int \<Rightarrow> string \<Rightarrow> RingBuffer \<times> istream \<times> Collector" where
  "test_setup num sz input =
     (the (RingBuffer_new num sz (addTarget [] ''ab'')), istream_of input, [])"

text \<open>
  The slots from \<open>k\<close> on have not been reached by the cursor: the cursor is at
  \<open>k\<close> (while \<open>k\<close> is a slot), and each of them has a non-zero flag and the
  content \<open>init\<close>.
\<close>

definition untouched :: "nat \<Rightarrow> byte list \<Rightarrow> RingBuffer \<Rightarrow> bool" where
  "untouched k init rb \<longleftrightarrow>
     idx_inv rb
     \<and> (k < nat (buffer_num rb) \<longrightarrow> next_buffer_idx rb = int k)
     \<and> (\<forall>i. k \<le> i \<and> i < nat (buffer_num rb)
            \<longrightarrow> buffer_print_flag rb ! i \<noteq> 0 \<and> buffer rb ! i = init)"

section \<open>Properties\<close>

subsection \<open>Target\<close>

lemma starts_with_iff: "starts_with n h \<longleftrightarrow> (\<exists>suf. h = n @ suf)"
  by (induction n h rule: starts_with.induct) auto

lemma memmem_None_iff:
  "memmem h n = None \<longleftrightarrow> \<not> (\<exists>pre suf. h = pre @ n @ suf)"
proof (induction h)
  case Nil
  show ?case by (cases n) (auto simp: starts_with_iff)
next
  case (Cons x xs)
  show ?case
  proof (cases "starts_with n (x # xs)")
    case True
    then obtain suf where "x # xs = [] @ n @ suf" by (auto simp: starts_with_iff)
    then have "\<exists>pre suf. x # xs = pre @ n @ suf" by blast
    with True show ?thesis by simp
  next
    case False
    have "(\<exists>pre suf. x # xs = pre @ n @ suf) \<longleftrightarrow> (\<exists>pre suf. xs = pre @ n @ suf)"
    proof
      assume "\<exists>pre suf. x # xs = pre @ n @ suf"
      then obtain pre suf where e: "x # xs = pre @ n @ suf" by blast
      show "\<exists>pre suf. xs = pre @ n @ suf"
      proof (cases pre)
        case Nil
        with e False show ?thesis by (auto simp: starts_with_iff)
      next
        case (Cons p ps)
        with e have "xs = ps @ n @ suf" by simp
        then show ?thesis by blast
      qed
    next
      assume "\<exists>pre suf. xs = pre @ n @ suf"
      then obtain pre suf where "xs = pre @ n @ suf" by blast
      then have "x # xs = (x # pre) @ n @ suf" by simp
      then show "\<exists>pre suf. x # xs = pre @ n @ suf" by blast
    qed
    with False Cons show ?thesis by simp
  qed
qed

lemma match_occurs:
  "match targets str len
     = (\<exists>t \<in> set targets. \<exists>pre suf. take len str = pre @ map Some t @ suf)"
  by (induction targets) (simp_all add: memmem_None_iff)

text \<open>
  C8. \<^verbatim>\<open>Target::match\<close> answers true exactly when one of the registered targets
  occurs as a contiguous run of bytes in \<^verbatim>\<open>str[0, len)\<close>. The targets are tried in
  registration order and the first one found decides, whatever follows it; the
  function is a pure function of the targets and the probed bytes, and with no
  target registered it answers false.
\<close>

theorem match_iff_occurs:
  "match targets str len
     = (\<exists>t \<in> set targets. \<exists>pre suf. take len str = pre @ map Some t @ suf)
   \<and> (memmem (take len str) (map Some t) \<noteq> None
        \<longrightarrow> match (t # later) str len = True)
   \<and> match [] str len = False"
  using match_occurs [of targets str len] by simp

theorem match_iff_occurs_witness:
  "match [''xy'', ''ab''] (map Some ''aaab3333'') 4
     = (\<exists>t \<in> set [''xy'', ''ab''].
          \<exists>pre suf. take 4 (map Some ''aaab3333'') = pre @ map Some t @ suf)
   \<and> memmem (take 4 (map Some ''aaab3333'')) (map Some ''ab'') \<noteq> None
   \<and> match (''ab'' # [''xy'']) (map Some ''aaab3333'') 4 = True"
  using match_iff_occurs [of "[''xy'', ''ab'']" "map Some ''aaab3333''" 4 "''ab''" "[''xy'']"]
  by simp

subsection \<open>The flush: \<^verbatim>\<open>collectTo\<close> in closed form\<close>

text \<open>
  A pass of the loop body over distinct slots sends the pending ones, in the order of
  the pass, and changes nothing but their flags.
\<close>

lemma fold_collect_slot:
  "distinct js \<Longrightarrow>
   \<exists>fl. fold collect_slot js (rb, col)
          = (rb\<lparr>buffer_print_flag := fl\<rparr>,
             col @ map (\<lambda>i. (i, buffer rb ! i)) (filter (pending rb) js))
        \<and> length fl = length (buffer_print_flag rb)
        \<and> (\<forall>j. fl ! j = (if j \<in> set js \<and> j < length (buffer_print_flag rb) \<and> pending rb j
                          then 1 else buffer_print_flag rb ! j))"
proof (induction js arbitrary: rb col)
  case Nil
  have "rb = rb\<lparr>buffer_print_flag := buffer_print_flag rb\<rparr>" by simp
  then show ?case by (intro exI [of _ "buffer_print_flag rb"]) simp
next
  case (Cons i js)
  let ?fl = "buffer_print_flag rb"
  show ?case
  proof (cases "?fl ! i = 0")
    case False
    from Cons.prems have d: "distinct js" by simp
    from Cons.IH [OF d, of rb col] obtain fl where
      fl: "fold collect_slot js (rb, col)
          = (rb\<lparr>buffer_print_flag := fl\<rparr>,
             col @ map (\<lambda>i. (i, buffer rb ! i)) (filter (pending rb) js))"
        "length fl = length ?fl"
        "\<forall>j. fl ! j = (if j \<in> set js \<and> j < length ?fl \<and> pending rb j then 1 else ?fl ! j)"
      by blast
    have step: "fold collect_slot (i # js) (rb, col) = fold collect_slot js (rb, col)"
      using False by (simp add: collect_slot_def)
    have np: "\<not> pending rb i" using False by (simp add: pending_def)
    have c: "\<forall>j. fl ! j = (if j \<in> set (i # js) \<and> j < length ?fl \<and> pending rb j
                       then 1 else ?fl ! j)"
      using fl(3) np by auto
    from fl(1,2) c np show ?thesis
      unfolding step by (intro exI [of _ fl]) simp
  next
    case True
    let ?rb = "rb\<lparr>buffer_print_flag := ?fl[i := 1]\<rparr>"
    from Cons.prems have d: "distinct js" and ni: "i \<notin> set js" by simp_all
    from Cons.IH [OF d, of ?rb "col @ [(i, buffer rb ! i)]"] obtain fl where
      fl: "fold collect_slot js (?rb, col @ [(i, buffer rb ! i)])
          = (?rb\<lparr>buffer_print_flag := fl\<rparr>,
             (col @ [(i, buffer rb ! i)]) @ map (\<lambda>i. (i, buffer ?rb ! i)) (filter (pending ?rb) js))"
        "length fl = length (buffer_print_flag ?rb)"
        "\<forall>j. fl ! j = (if j \<in> set js \<and> j < length (buffer_print_flag ?rb) \<and> pending ?rb j
                       then 1 else buffer_print_flag ?rb ! j)"
      by blast
    have pj: "pending ?rb j = pending rb j" if "j \<in> set js" for j
    proof -
      from that ni have "i \<noteq> j" by blast
      then show ?thesis by (simp add: pending_def)
    qed
    have filt: "filter (pending ?rb) js = filter (pending rb) js"
      by (rule filter_cong [OF refl]) (rule pj)
    have step: "fold collect_slot (i # js) (rb, col)
        = fold collect_slot js (?rb, col @ [(i, buffer rb ! i)])"
      using True by (simp add: collect_slot_def)
    have a: "fold collect_slot (i # js) (rb, col)
          = (rb\<lparr>buffer_print_flag := fl\<rparr>,
             col @ map (\<lambda>i. (i, buffer rb ! i)) (filter (pending rb) (i # js)))"
    proof -
      have pi: "pending rb i" using True by (simp add: pending_def)
      have "fold collect_slot (i # js) (rb, col)
          = fold collect_slot js (?rb, col @ [(i, buffer rb ! i)])" by (rule step)
      also have "\<dots> = (?rb\<lparr>buffer_print_flag := fl\<rparr>,
             (col @ [(i, buffer rb ! i)])
               @ map (\<lambda>i. (i, buffer ?rb ! i)) (filter (pending ?rb) js))"
        by (rule fl(1))
      also have "\<dots> = (rb\<lparr>buffer_print_flag := fl\<rparr>,
             col @ map (\<lambda>i. (i, buffer rb ! i)) (filter (pending rb) (i # js)))"
        unfolding filt using pi by simp
      finally show ?thesis .
    qed
    have b: "length fl = length ?fl" using fl(2) by simp
    have c: "\<forall>j. fl ! j = (if j \<in> set (i # js) \<and> j < length ?fl \<and> pending rb j
                       then 1 else ?fl ! j)"
    proof
      fix j
      show "fl ! j = (if j \<in> set (i # js) \<and> j < length ?fl \<and> pending rb j
                       then 1 else ?fl ! j)"
      proof -
        from fl(3) have e: "fl ! j = (if j \<in> set js \<and> j < length ?fl \<and> pending ?rb j
                       then 1 else (?fl[i := 1]) ! j)" by simp
        show ?thesis
        proof (cases "j = i")
          case True
          with ni e have e': "fl ! i = (?fl[i := 1]) ! i" by simp
          show ?thesis
          proof (cases "i < length ?fl")
            case True
            with e' \<open>j = i\<close> \<open>?fl ! i = 0\<close> show ?thesis by (simp add: pending_def)
          next
            case False
            then have "length ?fl \<le> i" by simp
            then have "?fl[i := 1] = ?fl" by (rule list_update_beyond)
            with e' \<open>j = i\<close> False show ?thesis by simp
          qed
        next
          case False
          then have "(?fl[i := 1]) ! j = ?fl ! j" by simp
          moreover from False have "pending ?rb j = pending rb j" by (simp add: pending_def)
          ultimately show ?thesis using e False by simp
        qed
      qed
    qed
    from a b c show ?thesis by blast
  qed
qed

lemma flush_order_distinct: "distinct (flush_order start num)"
  by (auto simp: flush_order_def)

lemma flush_order_set:
  "0 \<le> start \<Longrightarrow> start \<le> num \<Longrightarrow> set (flush_order start num) = {0 ..< nat num}"
  by (auto simp: flush_order_def)

lemma collectTo_fold:
  "collectTo start (rb, col)
     = fold collect_slot (flush_order start (buffer_num rb)) (rb, col)"
  by (simp add: collectTo_def flush_order_def)

lemma collectTo_closed:
  assumes "0 \<le> start" "start \<le> buffer_num rb"
  shows "\<exists>fl. collectTo start (rb, col)
          = (rb\<lparr>buffer_print_flag := fl\<rparr>,
             col @ map (\<lambda>i. (i, buffer rb ! i))
                       (filter (pending rb) (flush_order start (buffer_num rb))))
        \<and> length fl = length (buffer_print_flag rb)
        \<and> (\<forall>j. fl ! j = (if j < nat (buffer_num rb) \<and> j < length (buffer_print_flag rb)
                               \<and> pending rb j
                          then 1 else buffer_print_flag rb ! j))"
proof -
  from fold_collect_slot [OF flush_order_distinct, of start "buffer_num rb" rb col]
  obtain fl where fl: "fold collect_slot (flush_order start (buffer_num rb)) (rb, col)
          = (rb\<lparr>buffer_print_flag := fl\<rparr>,
             col @ map (\<lambda>i. (i, buffer rb ! i))
                       (filter (pending rb) (flush_order start (buffer_num rb))))"
     "length fl = length (buffer_print_flag rb)"
     "\<forall>j. fl ! j = (if j \<in> set (flush_order start (buffer_num rb))
                          \<and> j < length (buffer_print_flag rb) \<and> pending rb j
                     then 1 else buffer_print_flag rb ! j)"
    by blast
  have "\<forall>j. fl ! j = (if j < nat (buffer_num rb) \<and> j < length (buffer_print_flag rb)
                               \<and> pending rb j
                          then 1 else buffer_print_flag rb ! j)"
    using fl(3) by (simp add: flush_order_set [OF assms])
  with fl(1,2) show ?thesis unfolding collectTo_fold by blast
qed

subsection \<open>One cycle of \<^verbatim>\<open>readFrom\<close>\<close>

text \<open>The cycle in terms of the buffer after the store and after the probe.\<close>

lemma readFrom_unfold:
  "readFrom read (rb, rd, col) =
     (if nread_of read rb rd \<le> 0 then
        (if 0 \<le> matched_buffer_idx (marked read rb rd) then
           (False,
            (fst (collectTo (flush_start (marked read rb rd)) (marked read rb rd, col)))
               \<lparr>matched_buffer_idx := - 1\<rparr>,
            snd (read rd (buffer_size rb)),
            snd (collectTo (flush_start (marked read rb rd)) (marked read rb rd, col)))
         else (False, marked read rb rd, snd (read rd (buffer_size rb)), col))
      else if 0 \<le> matched_buffer_idx (probed read rb rd)
              \<and> next_buffer_idx (probed read rb rd) = flush_start (probed read rb rd) then
           (True,
            (fst (collectTo (flush_start (probed read rb rd)) (probed read rb rd, col)))
               \<lparr>matched_buffer_idx := - 1\<rparr>,
            snd (read rd (buffer_size rb)),
            snd (collectTo (flush_start (probed read rb rd)) (probed read rb rd, col)))
      else (True, probed read rb rd, snd (read rd (buffer_size rb)), col))"
  by (simp add: readFrom_def nread_of_def bytes_of_def marked_def probed_def Let_def
           split: prod.splits)

lemma mark_fields [simp]:
  "buffer_num (mark i bs rb) = buffer_num rb"
  "buffer_size (mark i bs rb) = buffer_size rb"
  "matched_buffer_idx (mark i bs rb) = matched_buffer_idx rb"
  "target (mark i bs rb) = target rb"
  "next_buffer_idx (mark i bs rb) = (next_buffer_idx rb + 1) mod buffer_num rb"
  "length (buffer (mark i bs rb)) = length (buffer rb)"
  "length (buffer_print_flag (mark i bs rb)) = length (buffer_print_flag rb)"
  by (simp_all add: mark_def)

lemma detect_fields [simp]:
  "buffer_num (detect i n rb) = buffer_num rb"
  "buffer_size (detect i n rb) = buffer_size rb"
  "target (detect i n rb) = target rb"
  "next_buffer_idx (detect i n rb) = next_buffer_idx rb"
  "buffer (detect i n rb) = buffer rb"
  "buffer_print_flag (detect i n rb) = buffer_print_flag rb"
  by (simp_all add: detect_def)

lemma idx_inv_mark:
  assumes "idx_inv rb"
  shows "idx_inv (mark (next_buffer_idx rb) bs rb)"
    and "buffer_print_flag (mark (next_buffer_idx rb) bs rb) ! nat (next_buffer_idx rb) = 0"
proof -
  let ?fl = "buffer_print_flag rb" and ?i = "nat (next_buffer_idx rb)"
  from assms have i: "?i < length ?fl" by (simp add: idx_inv_def)
  have fl: "buffer_print_flag (mark (next_buffer_idx rb) bs rb) = ?fl[?i := 0]"
    by (simp add: mark_def)
  show "buffer_print_flag (mark (next_buffer_idx rb) bs rb) ! ?i = 0"
    using i by (simp add: fl)
  have m: "?fl[?i := 0] ! nat (matched_buffer_idx rb) = 0" if "0 \<le> matched_buffer_idx rb"
  proof (cases "nat (matched_buffer_idx rb) = ?i")
    case True
    with i show ?thesis by simp
  next
    case False
    then have "?fl[?i := 0] ! nat (matched_buffer_idx rb) = ?fl ! nat (matched_buffer_idx rb)"
      by simp
    with assms that show ?thesis by (simp add: idx_inv_def)
  qed
  from assms have "0 \<le> (next_buffer_idx rb + 1) mod buffer_num rb"
    "(next_buffer_idx rb + 1) mod buffer_num rb < buffer_num rb"
    by (simp_all add: idx_inv_def)
  with assms m show "idx_inv (mark (next_buffer_idx rb) bs rb)"
    by (simp add: idx_inv_def fl)
qed

lemma idx_inv_detect:
  assumes "idx_inv rb" "0 \<le> i" "i < buffer_num rb" "buffer_print_flag rb ! nat i = 0"
  shows "idx_inv (detect i n rb)"
  using assms by (auto simp: idx_inv_def detect_def)

lemma idx_inv_marked: "idx_inv rb \<Longrightarrow> idx_inv (marked read rb rd)"
  by (simp add: marked_def idx_inv_mark)

lemma idx_inv_probed:
  assumes "idx_inv rb"
  shows "idx_inv (probed read rb rd)"
  unfolding probed_def marked_def
proof (rule idx_inv_detect)
  show "idx_inv (mark (next_buffer_idx rb) (bytes_of read rb rd) rb)"
    using assms by (rule idx_inv_mark)
  show "0 \<le> next_buffer_idx rb" using assms by (simp add: idx_inv_def)
  show "next_buffer_idx rb < buffer_num (mark (next_buffer_idx rb) (bytes_of read rb rd) rb)"
    using assms by (simp add: idx_inv_def)
  show "buffer_print_flag (mark (next_buffer_idx rb) (bytes_of read rb rd) rb)
          ! nat (next_buffer_idx rb) = 0"
    using assms by (rule idx_inv_mark)
qed

lemma flush_start_range:
  assumes "idx_inv rb" "0 \<le> matched_buffer_idx rb"
  shows "0 \<le> flush_start rb" "flush_start rb < buffer_num rb"
  using assms by (simp_all add: idx_inv_def flush_start_def)

text \<open>
  The sums the cycle computes stay below \<open>2 ^ 31\<close> for every buffer of at most
  1431655765 slots, so 32-bit \<^verbatim>\<open>int\<close> arithmetic does not overflow there.
\<close>

lemma int_range:
  assumes "idx_inv rb" and "buffer_num rb \<le> 1431655765"
  shows "next_buffer_idx rb + 1 < 2 ^ 31"
    and "0 \<le> matched_buffer_idx rb \<Longrightarrow> matched_buffer_idx rb + buffer_num rb div 2 < 2 ^ 31"
proof -
  from assms show "next_buffer_idx rb + 1 < 2 ^ 31" by (simp add: idx_inv_def)
  assume "0 \<le> matched_buffer_idx rb"
  with assms(1) have "matched_buffer_idx rb < buffer_num rb" by (simp add: idx_inv_def)
  moreover from assms(2) have "buffer_num rb div 2 \<le> 715827882" by arith
  ultimately show "matched_buffer_idx rb + buffer_num rb div 2 < 2 ^ 31"
    using assms(2) by simp
qed

text \<open>A flush followed by the reset of the matched index.\<close>

lemma flushed_closed:
  assumes "idx_inv rb" "0 \<le> matched_buffer_idx rb"
  shows "\<exists>fl. fst (collectTo (flush_start rb) (rb, col)) = rb\<lparr>buffer_print_flag := fl\<rparr>
      \<and> snd (collectTo (flush_start rb) (rb, col))
          = col @ map (\<lambda>i. (i, buffer rb ! i))
                       (filter (pending rb) (flush_order (flush_start rb) (buffer_num rb)))
      \<and> length fl = nat (buffer_num rb)
      \<and> (\<forall>j < nat (buffer_num rb). fl ! j \<noteq> 0)"
proof -
  from flush_start_range [OF assms] have r: "0 \<le> flush_start rb" "flush_start rb \<le> buffer_num rb"
    by simp_all
  from collectTo_closed [OF r, of col] obtain fl where
    fl: "collectTo (flush_start rb) (rb, col)
          = (rb\<lparr>buffer_print_flag := fl\<rparr>,
             col @ map (\<lambda>i. (i, buffer rb ! i))
                       (filter (pending rb) (flush_order (flush_start rb) (buffer_num rb))))"
      "length fl = length (buffer_print_flag rb)"
      "\<forall>j. fl ! j = (if j < nat (buffer_num rb) \<and> j < length (buffer_print_flag rb)
                               \<and> pending rb j
                          then 1 else buffer_print_flag rb ! j)"
    by blast
  from assms have len: "length (buffer_print_flag rb) = nat (buffer_num rb)"
    by (simp add: idx_inv_def)
  have "\<forall>j < nat (buffer_num rb). fl ! j \<noteq> 0"
    using fl(3) len by (simp add: pending_def)
  with fl(1,2) len show ?thesis by (intro exI [of _ fl]) simp
qed

lemma idx_inv_flushed:
  assumes "idx_inv rb" "0 \<le> matched_buffer_idx rb"
  shows "idx_inv ((fst (collectTo (flush_start rb) (rb, col)))\<lparr>matched_buffer_idx := - 1\<rparr>)"
proof -
  from flushed_closed [OF assms, of col] obtain fl where
    "fst (collectTo (flush_start rb) (rb, col)) = rb\<lparr>buffer_print_flag := fl\<rparr>"
    "length fl = nat (buffer_num rb)" by blast
  with assms(1) show ?thesis by (simp add: idx_inv_def)
qed

lemma readFrom_idx_inv:
  assumes "idx_inv rb"
  shows "idx_inv (fst (snd (readFrom read (rb, rd, col))))"
  using idx_inv_marked [OF assms, of read rd] idx_inv_probed [OF assms, of read rd]
  by (simp add: readFrom_unfold idx_inv_flushed)

lemma marked_fields [simp]:
  "buffer_num (marked read rb rd) = buffer_num rb"
  "buffer_size (marked read rb rd) = buffer_size rb"
  "matched_buffer_idx (marked read rb rd) = matched_buffer_idx rb"
  "next_buffer_idx (marked read rb rd) = (next_buffer_idx rb + 1) mod buffer_num rb"
  by (simp_all add: marked_def)

lemma probed_fields [simp]:
  "buffer_num (probed read rb rd) = buffer_num rb"
  "buffer_size (probed read rb rd) = buffer_size rb"
  "next_buffer_idx (probed read rb rd) = (next_buffer_idx rb + 1) mod buffer_num rb"
  "buffer (probed read rb rd) = buffer (marked read rb rd)"
  "buffer_print_flag (probed read rb rd) = buffer_print_flag (marked read rb rd)"
  by (simp_all add: probed_def)

lemma probed_tracking:
  "0 \<le> matched_buffer_idx rb \<Longrightarrow> probed read rb rd = marked read rb rd"
  by (simp add: probed_def detect_def)

lemma pending_probed [simp]: "pending (probed read rb rd) = pending (marked read rb rd)"
  by (rule ext) (simp add: pending_def)

lemma flush_start_marked [simp]: "flush_start (marked read rb rd) = flush_start rb"
  by (simp add: flush_start_def)

text \<open>
  C4. A cycle returns false exactly when the reader returned \<open>n \<le> 0\<close>, and true in
  every other case. In the false case the buffer is left idle; if a match was tracked,
  the slots still pending after the store are sent once, in wrap-around order from
  \<open>(matched + N div 2) mod N\<close>, and no slot is pending afterwards; if none was
  tracked, nothing is sent.
\<close>

theorem readFrom_end_of_stream:
  assumes "idx_inv rb"
  shows "fst (readFrom read (rb, rd, col)) = (0 < nread_of read rb rd)
    \<and> (nread_of read rb rd \<le> 0 \<longrightarrow>
         (case readFrom read (rb, rd, col) of (again, rb', rd', col') \<Rightarrow>
            \<not> again
          \<and> matched_buffer_idx rb' < 0
          \<and> (0 \<le> matched_buffer_idx rb \<longrightarrow>
               (let start = (matched_buffer_idx rb + buffer_num rb div 2) mod buffer_num rb
                in col' = col @ map (\<lambda>i. (i, buffer (marked read rb rd) ! i))
                                 (filter (pending (marked read rb rd))
                                    ([nat start ..< nat (buffer_num rb)] @ [0 ..< nat start])))
               \<and> (\<forall>i < nat (buffer_num rb). \<not> pending rb' i))
          \<and> (matched_buffer_idx rb < 0 \<longrightarrow> rb' = marked read rb rd \<and> col' = col)))"
proof -
  let ?M = "marked read rb rd"
  have a: "fst (readFrom read (rb, rd, col)) = (0 < nread_of read rb rd)"
    by (simp add: readFrom_unfold)
  have b: "case readFrom read (rb, rd, col) of (again, rb', rd', col') \<Rightarrow>
            \<not> again
          \<and> matched_buffer_idx rb' < 0
          \<and> (0 \<le> matched_buffer_idx rb \<longrightarrow>
               (let start = (matched_buffer_idx rb + buffer_num rb div 2) mod buffer_num rb
                in col' = col @ map (\<lambda>i. (i, buffer ?M ! i))
                                 (filter (pending ?M)
                                    ([nat start ..< nat (buffer_num rb)] @ [0 ..< nat start])))
               \<and> (\<forall>i < nat (buffer_num rb). \<not> pending rb' i))
          \<and> (matched_buffer_idx rb < 0 \<longrightarrow> rb' = ?M \<and> col' = col)"
    if n: "nread_of read rb rd \<le> 0"
  proof (cases "0 \<le> matched_buffer_idx rb")
    case False
    with n show ?thesis by (simp add: readFrom_unfold)
  next
    case True
    have inv: "idx_inv ?M" using assms by (rule idx_inv_marked)
    from True have t: "0 \<le> matched_buffer_idx ?M" by simp
    from flushed_closed [OF inv t, of col] obtain fl where
      fl: "fst (collectTo (flush_start ?M) (?M, col)) = ?M\<lparr>buffer_print_flag := fl\<rparr>"
        "snd (collectTo (flush_start ?M) (?M, col))
          = col @ map (\<lambda>i. (i, buffer ?M ! i))
                       (filter (pending ?M) (flush_order (flush_start ?M) (buffer_num ?M)))"
        "\<forall>j < nat (buffer_num ?M). fl ! j \<noteq> 0"
      by blast
    from n True fl show ?thesis
      by (simp add: readFrom_unfold flush_order_def flush_start_def pending_def)
  qed
  from a b show ?thesis by blast
qed


lemma slots_ok_marked:
  assumes "idx_inv rb" "slots_ok rb" "length (bytes_of read rb rd) \<le> nat (buffer_size rb)"
  shows "slots_ok (marked read rb rd)"
proof -
  let ?i = "nat (next_buffer_idx rb)" and ?bs = "bytes_of read rb rd"
  from assms(1) have i: "?i < length (buffer rb)" by (simp add: idx_inv_def)
  with assms(2) have "length (buffer rb ! ?i) = nat (buffer_size rb)"
    by (simp add: slots_ok_def)
  with assms(3) have l: "length (store ?bs (buffer rb ! ?i)) = nat (buffer_size rb)"
    by (simp add: store_def)
  have "buffer (marked read rb rd) = (buffer rb)[?i := store ?bs (buffer rb ! ?i)]"
    by (simp add: marked_def mark_def)
  moreover have "set ((buffer rb)[?i := store ?bs (buffer rb ! ?i)])
      \<subseteq> insert (store ?bs (buffer rb ! ?i)) (set (buffer rb))"
    by (rule set_update_subset_insert)
  ultimately show ?thesis using assms(2) l by (auto simp: slots_ok_def)
qed

text \<open>
  C2. In a cycle that read data and tracks a match after the probe, the flush starts at
  \<open>(matched + N div 2) mod N\<close>; it is performed exactly when the advanced cursor
  equals that index; it sends the pending slots, each with its \<open>S\<close> bytes, in the
  order start, ..., N-1, 0, ..., start-1, and leaves the buffer idle with no slot
  pending. Otherwise the cycle sends nothing and keeps tracking.
\<close>

theorem flush_when_cursor_reaches_start:
  assumes "idx_inv rb" and "slots_ok rb"
    and "length (bytes_of read rb rd) \<le> nat (buffer_size rb)"
    and "0 < nread_of read rb rd"
    and "0 \<le> matched_buffer_idx (probed read rb rd)"
  shows "case readFrom read (rb, rd, col) of (again, rb', rd', col') \<Rightarrow>
     (let P = probed read rb rd;
          start = (matched_buffer_idx P + buffer_num rb div 2) mod buffer_num rb
      in again
       \<and> (col' \<noteq> col \<longleftrightarrow> next_buffer_idx P = start)
       \<and> (next_buffer_idx P = start \<longrightarrow>
            col' = col @ map (\<lambda>i. (i, buffer P ! i))
                            (filter (pending P)
                               ([nat start ..< nat (buffer_num rb)] @ [0 ..< nat start]))
            \<and> matched_buffer_idx rb' = - 1
            \<and> (\<forall>i < nat (buffer_num rb). \<not> pending rb' i))
       \<and> (next_buffer_idx P \<noteq> start \<longrightarrow> rb' = P \<and> col' = col)
       \<and> (\<forall>c \<in> set (drop (length col) col'). length (snd c) = nat (buffer_size rb)))"
proof -
  define P where "P = probed read rb rd"
  define N where "N = buffer_num rb"
  define start where "start = (matched_buffer_idx P + N div 2) mod N"
  define order where "order = [nat start ..< nat N] @ [0 ..< nat start]"
  define new where "new = map (\<lambda>i. (i, buffer P ! i)) (filter (pending P) order)"
  have inv: "idx_inv P" unfolding P_def using assms(1) by (rule idx_inv_probed)
  have tr: "0 \<le> matched_buffer_idx P" unfolding P_def by (rule assms(5))
  have NP: "buffer_num P = N" by (simp add: P_def N_def)
  have fs: "flush_start P = start" by (simp add: flush_start_def start_def NP)
  from flush_start_range [OF inv tr] have r: "0 \<le> start" "start < N"
    unfolding fs NP by simp_all
  from inv tr have mr: "nat (matched_buffer_idx P) < nat N"
    and mp: "pending P (nat (matched_buffer_idx P))"
    unfolding NP [symmetric] by (auto simp: idx_inv_def pending_def)
  from r have so: "set order = {0 ..< nat N}" unfolding order_def by auto
  from so mr have "nat (matched_buffer_idx P) \<in> set order" by simp
  with mp have "filter (pending P) order \<noteq> []" unfolding filter_empty_conv by blast
  then have ne: "new \<noteq> []" by (simp add: new_def)
  have sl: "slots_ok (marked read rb rd)" using assms(1,2,3) by (rule slots_ok_marked)
  from inv have lb: "length (buffer P) = nat N" by (simp add: idx_inv_def NP)
  have bP: "buffer P = buffer (marked read rb rd)" by (simp add: P_def)
  have sz: "\<forall>c \<in> set new. length (snd c) = nat (buffer_size rb)"
  proof
    fix c assume "c \<in> set new"
    then obtain i where c: "c = (i, buffer P ! i)" and "i \<in> set order"
      unfolding new_def by auto
    with so lb have "buffer P ! i \<in> set (buffer P)" by simp
    with sl c show "length (snd c) = nat (buffer_size rb)" by (simp add: slots_ok_def bP)
  qed
  have goal: "case readFrom read (rb, rd, col) of (again, rb', rd', col') \<Rightarrow>
       again
       \<and> (col' \<noteq> col \<longleftrightarrow> next_buffer_idx P = start)
       \<and> (next_buffer_idx P = start \<longrightarrow>
            col' = col @ new
            \<and> matched_buffer_idx rb' = - 1
            \<and> (\<forall>i < nat N. \<not> pending rb' i))
       \<and> (next_buffer_idx P \<noteq> start \<longrightarrow> rb' = P \<and> col' = col)
       \<and> (\<forall>c \<in> set (drop (length col) col'). length (snd c) = nat (buffer_size rb))"
  proof (cases "next_buffer_idx P = start")
    case False
    have res: "readFrom read (rb, rd, col) = (True, P, snd (read rd (buffer_size rb)), col)"
      using assms(4) tr False fs unfolding P_def by (simp add: readFrom_unfold)
    show ?thesis
      unfolding res using False by simp
  next
    case True
    from flushed_closed [OF inv tr, of col] obtain fl where
      fl: "fst (collectTo (flush_start P) (P, col)) = P\<lparr>buffer_print_flag := fl\<rparr>"
        "snd (collectTo (flush_start P) (P, col))
          = col @ map (\<lambda>i. (i, buffer P ! i))
                       (filter (pending P) (flush_order (flush_start P) (buffer_num P)))"
        "\<forall>j < nat (buffer_num P). fl ! j \<noteq> 0"
      by blast
    from fl(2) have col': "snd (collectTo (flush_start P) (P, col)) = col @ new"
      unfolding fs NP flush_order_def new_def order_def .
    have res: "readFrom read (rb, rd, col)
        = (True, P\<lparr>buffer_print_flag := fl, matched_buffer_idx := - 1\<rparr>,
           snd (read rd (buffer_size rb)), col @ new)"
      using assms(4) tr True fl(1) col' fs unfolding P_def by (simp add: readFrom_unfold)
    have np: "\<forall>i < nat N. \<not> pending (P\<lparr>buffer_print_flag := fl, matched_buffer_idx := - 1\<rparr>) i"
      using fl(3) unfolding NP by (simp add: pending_def)
    show ?thesis
      unfolding res using True ne sz np by simp
  qed
  show ?thesis
    using goal unfolding new_def order_def start_def N_def P_def Let_def .
qed

subsection \<open>The two theorems at a state of the first test\<close>

lemma tracking_rb_reached:
  "scan_for 4 StreamReader_read
     (the (RingBuffer_new 4 4 [''ab'']), istream_of ''000011112222aaab3333bbbb'', [])
   = (True, tracking_rb, istream_of ''3333bbbb'', [])"
  by code_simp

theorem readFrom_end_of_stream_witness:
  "idx_inv tracking_rb
   \<and> nread_of StreamReader_read tracking_rb (istream_of []) \<le> 0
   \<and> \<not> fst (readFrom StreamReader_read (tracking_rb, istream_of [], []))
   \<and> readFrom StreamReader_read (tracking_rb, istream_of [], [])
       = (False,
          tracking_rb\<lparr>next_buffer_idx := 1, matched_buffer_idx := - 1,
                       buffer_print_flag := [1, 1, 1, 1]\<rparr>,
          \<lparr>rest = [], eofbit = True\<rparr>,
          [(1, map Some ''1111''), (2, map Some ''2222''), (3, map Some ''aaab''),
           (0, map Some ''0000'')])"
proof -
  have h: "idx_inv tracking_rb" by code_simp
  have n: "nread_of StreamReader_read tracking_rb (istream_of []) \<le> 0" by code_simp
  have c: "readFrom StreamReader_read (tracking_rb, istream_of [], [])
       = (False,
          tracking_rb\<lparr>next_buffer_idx := 1, matched_buffer_idx := - 1,
                       buffer_print_flag := [1, 1, 1, 1]\<rparr>,
          \<lparr>rest = [], eofbit = True\<rparr>,
          [(1, map Some ''1111''), (2, map Some ''2222''), (3, map Some ''aaab''),
           (0, map Some ''0000'')])" by code_simp
  from readFrom_end_of_stream [OF h, of StreamReader_read "istream_of []" "[]"] n
  have "\<not> fst (readFrom StreamReader_read (tracking_rb, istream_of [], []))" by simp
  with h n c show ?thesis by blast
qed

theorem flush_when_cursor_reaches_start_witness:
  "idx_inv tracking_rb \<and> slots_ok tracking_rb
   \<and> length (bytes_of StreamReader_read tracking_rb (istream_of ''3333bbbb''))
        \<le> nat (buffer_size tracking_rb)
   \<and> 0 < nread_of StreamReader_read tracking_rb (istream_of ''3333bbbb'')
   \<and> 0 \<le> matched_buffer_idx (probed StreamReader_read tracking_rb (istream_of ''3333bbbb''))
   \<and> fst (readFrom StreamReader_read (tracking_rb, istream_of ''3333bbbb'', []))
   \<and> snd (snd (snd (readFrom StreamReader_read (tracking_rb, istream_of ''3333bbbb'', []))))
       = [(1, map Some ''1111''), (2, map Some ''2222''), (3, map Some ''aaab''),
          (0, map Some ''3333'')]"
proof -
  let ?rd = "istream_of ''3333bbbb''"
  have h: "idx_inv tracking_rb" "slots_ok tracking_rb"
    "length (bytes_of StreamReader_read tracking_rb ?rd) \<le> nat (buffer_size tracking_rb)"
    "0 < nread_of StreamReader_read tracking_rb ?rd"
    "0 \<le> matched_buffer_idx (probed StreamReader_read tracking_rb ?rd)"
    by code_simp+
  have c: "snd (snd (snd (readFrom StreamReader_read (tracking_rb, ?rd, []))))
       = [(1, map Some ''1111''), (2, map Some ''2222''), (3, map Some ''aaab''),
          (0, map Some ''3333'')]" by code_simp
  from flush_when_cursor_reaches_start [OF h, of "[]"]
  have "fst (readFrom StreamReader_read (tracking_rb, ?rd, []))"
    by (simp add: Let_def split: prod.splits)
  with h c show ?thesis by blast
qed

subsection \<open>One match at a time\<close>

lemma flag_target_commute:
  "rb\<lparr>buffer_print_flag := f, target := ts\<rparr> = rb\<lparr>target := ts, buffer_print_flag := f\<rparr>"
  by (cases rb) simp

lemma matched_target_commute:
  "rb\<lparr>matched_buffer_idx := m, target := ts\<rparr> = rb\<lparr>target := ts, matched_buffer_idx := m\<rparr>"
  by (cases rb) simp

lemma fold_collect_slot_target:
  "fold collect_slot js (rb\<lparr>target := ts\<rparr>, col)
     = (case fold collect_slot js (rb, col) of (r, c) \<Rightarrow> (r\<lparr>target := ts\<rparr>, c))"
proof (induction js arbitrary: rb col)
  case Nil
  show ?case by simp
next
  case (Cons i js)
  show ?case
  proof (cases "buffer_print_flag rb ! i = 0")
    case True
    then have "fold collect_slot (i # js) (rb\<lparr>target := ts\<rparr>, col)
        = fold collect_slot js
            ((rb\<lparr>buffer_print_flag := (buffer_print_flag rb)[i := 1]\<rparr>)\<lparr>target := ts\<rparr>,
             col @ [(i, buffer rb ! i)])"
      by (simp add: collect_slot_def flag_target_commute)
    also have "\<dots> = (case fold collect_slot js
            (rb\<lparr>buffer_print_flag := (buffer_print_flag rb)[i := 1]\<rparr>,
             col @ [(i, buffer rb ! i)]) of (r, c) \<Rightarrow> (r\<lparr>target := ts\<rparr>, c))"
      by (rule Cons.IH)
    also have "\<dots> = (case fold collect_slot (i # js) (rb, col) of
                        (r, c) \<Rightarrow> (r\<lparr>target := ts\<rparr>, c))"
      using True by (simp add: collect_slot_def)
    finally show ?thesis .
  next
    case False
    then have "fold collect_slot (i # js) (rb\<lparr>target := ts\<rparr>, col)
        = fold collect_slot js (rb\<lparr>target := ts\<rparr>, col)"
      by (simp add: collect_slot_def)
    also have "\<dots> = (case fold collect_slot js (rb, col) of
                        (r, c) \<Rightarrow> (r\<lparr>target := ts\<rparr>, c))"
      by (rule Cons.IH)
    also have "\<dots> = (case fold collect_slot (i # js) (rb, col) of
                        (r, c) \<Rightarrow> (r\<lparr>target := ts\<rparr>, c))"
      using False by (simp add: collect_slot_def)
    finally show ?thesis .
  qed
qed

lemma collectTo_target:
  "fst (collectTo start (rb\<lparr>target := ts\<rparr>, col))
     = (fst (collectTo start (rb, col)))\<lparr>target := ts\<rparr>"
  "snd (collectTo start (rb\<lparr>target := ts\<rparr>, col)) = snd (collectTo start (rb, col))"
  by (simp_all add: collectTo_fold fold_collect_slot_target split: prod.splits)

lemma marked_target:
  "marked read (rb\<lparr>target := ts\<rparr>) rd = (marked read rb rd)\<lparr>target := ts\<rparr>"
  by (simp add: marked_def mark_def bytes_of_def)

lemma readFrom_tracking:
  assumes "0 \<le> matched_buffer_idx rb"
  shows "readFrom read (rb, rd, col) =
     (if nread_of read rb rd \<le> 0
         \<or> (next_buffer_idx rb + 1) mod buffer_num rb = flush_start rb then
        (0 < nread_of read rb rd,
         (fst (collectTo (flush_start rb) (marked read rb rd, col)))
            \<lparr>matched_buffer_idx := - 1\<rparr>,
         snd (read rd (buffer_size rb)),
         snd (collectTo (flush_start rb) (marked read rb rd, col)))
      else (True, marked read rb rd, snd (read rd (buffer_size rb)), col))"
  using assms by (simp add: readFrom_unfold probed_tracking)

lemma scan_for_idx_inv:
  "idx_inv rb \<Longrightarrow> idx_inv (buffer_after k read (rb, rd, col))"
proof (induction k arbitrary: rb rd col)
  case 0
  then show ?case by (simp add: buffer_after_def)
next
  case (Suc k)
  obtain again rb1 rd1 col1 where r: "readFrom read (rb, rd, col) = (again, rb1, rd1, col1)"
    by (cases "readFrom read (rb, rd, col)") auto
  from readFrom_idx_inv [OF Suc.prems, of read rd col] r have i1: "idx_inv rb1" by simp
  from Suc.IH [OF i1, of rd1 col1] i1 r show ?case
    by (cases again) (simp_all add: buffer_after_def)
qed

text \<open>
  C7. From a buffer whose indices are in range, as the constructor leaves it, the
  matched index is \<open>-1\<close> or one slot index after any number of cycles. A cycle that
  starts while a match is tracked leaves the matched index as it is or resets it to
  \<open>-1\<close> (with data read: reset exactly when the advanced cursor reaches the flush
  start of that match), and its whole outcome is the same for every set of targets: a
  pattern in the newly read slot is not looked for and registers nothing.
\<close>

theorem single_tracked_match:
  assumes "idx_inv rb"
  shows "(matched_buffer_idx (buffer_after k read (rb, rd, col)) = - 1
           \<or> (0 \<le> matched_buffer_idx (buffer_after k read (rb, rd, col))
               \<and> matched_buffer_idx (buffer_after k read (rb, rd, col))
                    < buffer_num (buffer_after k read (rb, rd, col))))
    \<and> (case readFrom read (rb, rd, col) of (again, rb', rd', col') \<Rightarrow>
      (matched_buffer_idx rb' = - 1
        \<or> (0 \<le> matched_buffer_idx rb' \<and> matched_buffer_idx rb' < buffer_num rb'))
    \<and> (0 \<le> matched_buffer_idx rb \<longrightarrow>
          (matched_buffer_idx rb' = matched_buffer_idx rb \<or> matched_buffer_idx rb' = - 1)
        \<and> (0 < nread_of read rb rd \<longrightarrow>
              matched_buffer_idx rb'
                = (if (next_buffer_idx rb + 1) mod buffer_num rb
                        = (matched_buffer_idx rb + buffer_num rb div 2) mod buffer_num rb
                   then - 1 else matched_buffer_idx rb))
        \<and> readFrom read (rb\<lparr>target := ts\<rparr>, rd, col) = (again, rb'\<lparr>target := ts\<rparr>, rd', col')))"
proof -
  from scan_for_idx_inv [OF assms, of k read rd col]
  have d: "matched_buffer_idx (buffer_after k read (rb, rd, col)) = - 1
           \<or> (0 \<le> matched_buffer_idx (buffer_after k read (rb, rd, col))
               \<and> matched_buffer_idx (buffer_after k read (rb, rd, col))
                    < buffer_num (buffer_after k read (rb, rd, col)))"
    by (simp add: idx_inv_def)
  obtain again rb' rd' col' where res: "readFrom read (rb, rd, col) = (again, rb', rd', col')"
    by (cases "readFrom read (rb, rd, col)") auto
  from readFrom_idx_inv [OF assms, of read rd col] res have "idx_inv rb'" by simp
  then have a: "matched_buffer_idx rb' = - 1
        \<or> (0 \<le> matched_buffer_idx rb' \<and> matched_buffer_idx rb' < buffer_num rb')"
    by (simp add: idx_inv_def)
  have b: "(matched_buffer_idx rb' = matched_buffer_idx rb \<or> matched_buffer_idx rb' = - 1)
        \<and> (0 < nread_of read rb rd \<longrightarrow>
              matched_buffer_idx rb'
                = (if (next_buffer_idx rb + 1) mod buffer_num rb
                        = (matched_buffer_idx rb + buffer_num rb div 2) mod buffer_num rb
                   then - 1 else matched_buffer_idx rb))
        \<and> readFrom read (rb\<lparr>target := ts\<rparr>, rd, col) = (again, rb'\<lparr>target := ts\<rparr>, rd', col')"
    if t: "0 \<le> matched_buffer_idx rb"
  proof -
    from t have t': "0 \<le> matched_buffer_idx (rb\<lparr>target := ts\<rparr>)" by simp
    have n: "nread_of read (rb\<lparr>target := ts\<rparr>) rd = nread_of read rb rd"
      by (simp add: nread_of_def)
    have f: "flush_start (rb\<lparr>target := ts\<rparr>) = flush_start rb"
      by (simp add: flush_start_def)
    have fs: "flush_start rb = (matched_buffer_idx rb + buffer_num rb div 2) mod buffer_num rb"
      by (simp add: flush_start_def)
    show ?thesis
      using res unfolding readFrom_tracking [OF t] readFrom_tracking [OF t'] n f
        marked_target collectTo_target
      by (auto simp: fs matched_target_commute split: if_splits)
  qed
  from a b have "case (again, rb', rd', col') of (again, rb', rd', col') \<Rightarrow>
      (matched_buffer_idx rb' = - 1
        \<or> (0 \<le> matched_buffer_idx rb' \<and> matched_buffer_idx rb' < buffer_num rb'))
    \<and> (0 \<le> matched_buffer_idx rb \<longrightarrow>
          (matched_buffer_idx rb' = matched_buffer_idx rb \<or> matched_buffer_idx rb' = - 1)
        \<and> (0 < nread_of read rb rd \<longrightarrow>
              matched_buffer_idx rb'
                = (if (next_buffer_idx rb + 1) mod buffer_num rb
                        = (matched_buffer_idx rb + buffer_num rb div 2) mod buffer_num rb
                   then - 1 else matched_buffer_idx rb))
        \<and> readFrom read (rb\<lparr>target := ts\<rparr>, rd, col) = (again, rb'\<lparr>target := ts\<rparr>, rd', col'))"
    by simp
  with d show ?thesis unfolding res by (rule conjI)
qed

lemma window_open_rb_reached:
  "scan_for 1 StreamReader_read (the (RingBuffer_new 6 2 [''ab'']), istream_of ''abab'', [])
   = (True, window_open_rb, istream_of ''ab'', [])"
  by code_simp

theorem single_tracked_match_witness:
  "idx_inv window_open_rb
   \<and> 0 \<le> matched_buffer_idx window_open_rb
   \<and> 0 < nread_of StreamReader_read window_open_rb (istream_of ''ab'')
   \<and> match (target window_open_rb) (map Some ''ab'') 2
   \<and> readFrom StreamReader_read (window_open_rb\<lparr>target := []\<rparr>, istream_of ''ab'', [])
       = (True,
          window_open_rb\<lparr>target := [], next_buffer_idx := 2,
             buffer := (buffer window_open_rb)[1 := map Some ''ab''],
             buffer_print_flag := [0, 0, 1, 1, 1, 1]\<rparr>,
          istream_of [], [])
   \<and> readFrom StreamReader_read (window_open_rb, istream_of ''ab'', [])
       = (True,
          window_open_rb\<lparr>next_buffer_idx := 2,
             buffer := (buffer window_open_rb)[1 := map Some ''ab''],
             buffer_print_flag := [0, 0, 1, 1, 1, 1]\<rparr>,
          istream_of [], [])"
proof -
  let ?r = "window_open_rb\<lparr>next_buffer_idx := 2,
             buffer := (buffer window_open_rb)[1 := map Some ''ab''],
             buffer_print_flag := [0, 0, 1, 1, 1, 1]\<rparr>"
  have h: "idx_inv window_open_rb" by code_simp
  have t: "0 \<le> matched_buffer_idx window_open_rb" by code_simp
  have n: "0 < nread_of StreamReader_read window_open_rb (istream_of ''ab'')" by code_simp
  have m: "match (target window_open_rb) (map Some ''ab'') 2" by code_simp
  have c: "readFrom StreamReader_read (window_open_rb, istream_of ''ab'', [])
       = (True, ?r, istream_of [], [])" by code_simp
  from single_tracked_match [OF h, where read = StreamReader_read
      and rd = "istream_of ''ab''" and col = "[]" and ts = "[]"] t
  have "readFrom StreamReader_read (window_open_rb\<lparr>target := []\<rparr>, istream_of ''ab'', [])
       = (True, ?r\<lparr>target := []\<rparr>, istream_of [], [])"
    unfolding c by simp
  moreover have "?r\<lparr>target := []\<rparr> = window_open_rb\<lparr>target := [], next_buffer_idx := 2,
             buffer := (buffer window_open_rb)[1 := map Some ''ab''],
             buffer_print_flag := [0, 0, 1, 1, 1, 1]\<rparr>"
    by (simp add: window_open_rb_def)
  ultimately show ?thesis using h t n m c by simp
qed

subsection \<open>The storage keeps its shape\<close>

lemma shape_fold_collect_slot:
  "shape (fst (fold collect_slot js (rb, col))) = shape rb"
proof (induction js arbitrary: rb col)
  case Nil
  show ?case by simp
next
  case (Cons i js)
  show ?case
  proof (cases "buffer_print_flag rb ! i = 0")
    case True
    then have "fold collect_slot (i # js) (rb, col)
        = fold collect_slot js (rb\<lparr>buffer_print_flag := (buffer_print_flag rb)[i := 1]\<rparr>,
             col @ [(i, buffer rb ! i)])"
      by (simp add: collect_slot_def)
    then show ?thesis by (simp add: Cons.IH) (simp add: shape_def)
  next
    case False
    then have "fold collect_slot (i # js) (rb, col) = fold collect_slot js (rb, col)"
      by (simp add: collect_slot_def)
    then show ?thesis by (simp add: Cons.IH)
  qed
qed

lemma shape_collectTo: "shape (fst (collectTo start (rb, col))) = shape rb"
  by (simp add: collectTo_fold shape_fold_collect_slot)

lemma shape_matched [simp]: "shape (rb\<lparr>matched_buffer_idx := m\<rparr>) = shape rb"
  by (simp add: shape_def)

lemma shape_probed: "shape (probed read rb rd) = shape (marked read rb rd)"
  by (simp add: shape_def)

lemma slots_ok_shape:
  "slots_ok rb \<longleftrightarrow> (case shape rb of (n, s, ls, f) \<Rightarrow> 0 < s \<and> (\<forall>l \<in> set ls. l = nat s))"
  by (simp add: slots_ok_def shape_def)

lemma shape_marked:
  assumes "idx_inv rb" "slots_ok rb" "length (bytes_of read rb rd) \<le> nat (buffer_size rb)"
  shows "shape (marked read rb rd) = shape rb"
proof -
  let ?i = "nat (next_buffer_idx rb)" and ?bs = "bytes_of read rb rd"
  from assms(1) have i: "?i < length (buffer rb)" by (simp add: idx_inv_def)
  with assms(2) have "length (buffer rb ! ?i) = nat (buffer_size rb)"
    by (simp add: slots_ok_def)
  with assms(3) have l: "length (store ?bs (buffer rb ! ?i)) = length (buffer rb ! ?i)"
    by (simp add: store_def)
  have "map length ((buffer rb)[?i := store ?bs (buffer rb ! ?i)])
      = (map length (buffer rb))[?i := length (buffer rb ! ?i)]"
    by (simp add: map_update l)
  also have "\<dots> = map length (buffer rb)"
    using i by (simp add: list_update_same_conv)
  finally show ?thesis by (simp add: shape_def marked_def mark_def)
qed

lemma shape_readFrom:
  assumes "idx_inv rb" "slots_ok rb" "length (bytes_of read rb rd) \<le> nat (buffer_size rb)"
  shows "shape (fst (snd (readFrom read (rb, rd, col)))) = shape rb"
  using shape_marked [OF assms]
  by (simp add: readFrom_unfold shape_collectTo shape_probed)

lemma reader_ok_bytes:
  "reader_ok read \<Longrightarrow> length (bytes_of read rb rd) \<le> nat (buffer_size rb)"
  by (simp add: reader_ok_def bytes_of_def)

lemma scan_for_inv:
  assumes "reader_ok read"
  shows "idx_inv rb \<Longrightarrow> slots_ok rb \<Longrightarrow>
     (case scan_for k read (rb, rd, col) of (again, rb', rd', col') \<Rightarrow>
        idx_inv rb' \<and> slots_ok rb' \<and> shape rb' = shape rb)"
proof (induction k arbitrary: rb rd col)
  case 0
  then show ?case by simp
next
  case (Suc k)
  obtain again rb1 rd1 col1 where r: "readFrom read (rb, rd, col) = (again, rb1, rd1, col1)"
    by (cases "readFrom read (rb, rd, col)") auto
  from readFrom_idx_inv [OF Suc.prems(1), of read rd col] r have i1: "idx_inv rb1" by simp
  from shape_readFrom [OF Suc.prems reader_ok_bytes [OF assms], of rd col] r
  have s1: "shape rb1 = shape rb" by simp
  with Suc.prems(2) have o1: "slots_ok rb1" by (simp add: slots_ok_shape)
  show ?case
  proof (cases again)
    case False
    with r i1 s1 o1 show ?thesis by simp
  next
    case True
    from Suc.IH [OF i1 o1, of rd1 col1] s1 r True show ?thesis
      by (simp split: prod.splits)
  qed
qed

lemma RingBuffer_new_inv:
  assumes "RingBuffer_new num sz tgt = Some rb"
  shows "idx_inv rb" "slots_ok rb" "shape rb = (num, sz, replicate (nat num) (nat sz), nat num)"
  using assms
  by (auto simp: RingBuffer_new_def idx_inv_def slots_ok_def shape_def split: if_splits)

lemma StreamReader_ok: "reader_ok StreamReader_read"
  by (simp add: reader_ok_def StreamReader_read_def Let_def)

text \<open>
  C9. The shape of the storage is fixed at construction: \<open>N\<close> slots of \<open>S\<close> bytes
  and \<open>N\<close> flags. With a reader that honours the size it is given, no number of
  cycles of the driver loop changes it, nor does one \<^verbatim>\<open>readFrom\<close> from any
  consistent buffer; \<^verbatim>\<open>collectTo\<close> never changes it.
\<close>

theorem storage_shape_fixed:
  assumes "reader_ok read" and "RingBuffer_new num sz tgt = Some rb0"
  shows "shape rb0 = (num, sz, replicate (nat num) (nat sz), nat num)
    \<and> shape (fst (snd (scan_for k read (rb0, rd, col)))) = shape rb0
    \<and> (idx_inv rb \<and> slots_ok rb \<longrightarrow> shape (fst (snd (readFrom read (rb, rd, col)))) = shape rb)
    \<and> shape (fst (collectTo start (rb, col))) = shape rb"
proof -
  note new = RingBuffer_new_inv [OF assms(2)]
  from scan_for_inv [OF assms(1) new(1,2), of k rd col]
  have "shape (fst (snd (scan_for k read (rb0, rd, col)))) = shape rb0"
    by (simp split: prod.splits)
  moreover have "shape (fst (snd (readFrom read (rb, rd, col)))) = shape rb"
    if "idx_inv rb" "slots_ok rb"
    using that reader_ok_bytes [OF assms(1)] by (rule shape_readFrom)
  ultimately show ?thesis using new(3) shape_collectTo by blast
qed


theorem storage_shape_fixed_witness:
  "reader_ok StreamReader_read
   \<and> RingBuffer_new 4 4 [''ab'']
       = Some \<lparr>buffer = replicate 4 (replicate 4 None), buffer_num = 4, buffer_size = 4,
               next_buffer_idx = 0, matched_buffer_idx = - 1, target = [''ab''],
               buffer_print_flag = [1, 1, 1, 1]\<rparr>
   \<and> idx_inv tracking_rb \<and> slots_ok tracking_rb
   \<and> shape (fst (snd (scan_for 14 StreamReader_read
         (the (RingBuffer_new 4 4 [''ab'']),
          istream_of ''000011112222aaab3333bbbb4444cccc5555aaab666677778888'', []))))
       = (4, 4, [4, 4, 4, 4], 4)
   \<and> shape (fst (snd (readFrom StreamReader_read
         (tracking_rb,
          istream_of ''000011112222aaab3333bbbb4444cccc5555aaab666677778888'', []))))
       = (4, 4, [4, 4, 4, 4], 4)
   \<and> shape (fst (collectTo 1 (tracking_rb, []))) = (4, 4, [4, 4, 4, 4], 4)"
proof -
  let ?rb0 = "\<lparr>buffer = replicate 4 (replicate 4 None), buffer_num = 4, buffer_size = 4,
               next_buffer_idx = 0, matched_buffer_idx = - 1, target = [''ab''],
               buffer_print_flag = [1, 1, 1, 1]\<rparr>"
  have n: "RingBuffer_new 4 4 [''ab''] = Some ?rb0" by code_simp
  have h: "idx_inv tracking_rb \<and> slots_ok tracking_rb" by code_simp
  have s: "shape tracking_rb = (4, 4, [4, 4, 4, 4], 4)" by code_simp
  from storage_shape_fixed [OF StreamReader_ok n, where k = 14
      and rd = "istream_of ''000011112222aaab3333bbbb4444cccc5555aaab666677778888''"
      and col = "[]" and rb = tracking_rb and start = 1] h s n
  show ?thesis using StreamReader_ok by (simp add: numeral_eq_Suc)
qed

subsection \<open>The empty target\<close>

lemma match_empty_target:
  assumes "[] \<in> set targets"
  shows "match targets str len"
proof -
  have "take len str = [] @ map Some [] @ take len str" by simp
  with assms show ?thesis unfolding match_occurs by blast
qed

text \<open>
  C10. \<^verbatim>\<open>addTarget\<close> accepts the empty string, and with it registered
  \<^verbatim>\<open>match\<close> is true for every probed buffer and every length, zero included. So
  every cycle that starts idle and reads data registers a match in the slot it wrote:
  after the cycle that slot is the matched slot, or the window was flushed in the same
  cycle and the slot was sent.
\<close>

theorem empty_target_always_matches:
  assumes "idx_inv rb" and "[] \<in> set (target rb)"
    and "matched_buffer_idx rb < 0" and "0 < nread_of read rb rd"
  shows "match (addTarget targets []) str len
    \<and> match (addTarget targets []) str 0
    \<and> matched_buffer_idx (probed read rb rd) = next_buffer_idx rb
    \<and> (case readFrom read (rb, rd, col) of (again, rb', rd', col') \<Rightarrow>
          again
        \<and> (matched_buffer_idx rb' = next_buffer_idx rb
            \<or> (nat (next_buffer_idx rb), buffer (marked read rb rd) ! nat (next_buffer_idx rb))
                 \<in> set (drop (length col) col')))"
proof -
  define P where "P = probed read rb rd"
  define i where "i = next_buffer_idx rb"
  have a: "match (addTarget targets []) str n" for n
    by (rule match_empty_target) (simp add: addTarget_def)
  have m: "matched_buffer_idx P = i"
    unfolding P_def i_def probed_def detect_def
    using assms(2,3) by (simp add: match_empty_target marked_def mark_def)
  have inv: "idx_inv P" unfolding P_def using assms(1) by (rule idx_inv_probed)
  from assms(1) have i0: "0 \<le> i" and iN: "i < buffer_num rb" by (simp_all add: idx_inv_def i_def)
  from m i0 have tr: "0 \<le> matched_buffer_idx P" by simp
  have c: "case readFrom read (rb, rd, col) of (again, rb', rd', col') \<Rightarrow>
          again
        \<and> (matched_buffer_idx rb' = i
            \<or> (nat i, buffer (marked read rb rd) ! nat i) \<in> set (drop (length col) col'))"
  proof (cases "next_buffer_idx P = flush_start P")
    case False
    with assms(4) tr m show ?thesis
      unfolding P_def by (simp add: readFrom_unfold)
  next
    case True
    from flushed_closed [OF inv tr, of col] obtain fl where
      fl: "snd (collectTo (flush_start P) (P, col))
          = col @ map (\<lambda>i. (i, buffer P ! i))
                       (filter (pending P) (flush_order (flush_start P) (buffer_num P)))"
      by blast
    from flush_start_range [OF inv tr]
    have "set (flush_order (flush_start P) (buffer_num P)) = {0 ..< nat (buffer_num P)}"
      by (intro flush_order_set) simp_all
    with iN i0 have "nat i \<in> set (flush_order (flush_start P) (buffer_num P))"
      by (simp add: P_def)
    moreover from inv tr m have "pending P (nat i)" by (simp add: idx_inv_def pending_def)
    ultimately have "nat i \<in> set (filter (pending P) (flush_order (flush_start P) (buffer_num P)))"
      by simp
    then have "(nat i, buffer P ! nat i)
        \<in> set (map (\<lambda>i. (i, buffer P ! i))
                  (filter (pending P) (flush_order (flush_start P) (buffer_num P))))"
      by (simp add: image_iff)
    moreover have "buffer P = buffer (marked read rb rd)" by (simp add: P_def)
    ultimately show ?thesis
      using assms(4) tr True fl unfolding P_def by (simp add: readFrom_unfold)
  qed
  from a m c show ?thesis unfolding P_def i_def by blast
qed

theorem empty_target_always_matches_witness:
  "idx_inv (the (RingBuffer_new 6 2 (addTarget [''ab''] [])))
   \<and> [] \<in> set (target (the (RingBuffer_new 6 2 (addTarget [''ab''] []))))
   \<and> matched_buffer_idx (the (RingBuffer_new 6 2 (addTarget [''ab''] []))) < 0
   \<and> 0 < nread_of StreamReader_read (the (RingBuffer_new 6 2 (addTarget [''ab''] [])))
           (istream_of ''xy'')
   \<and> match (addTarget [''ab''] []) (map Some ''xy'') 2
   \<and> match (addTarget [''ab''] []) [] 0
   \<and> matched_buffer_idx (probed StreamReader_read
         (the (RingBuffer_new 6 2 (addTarget [''ab''] []))) (istream_of ''xy'')) = 0"
proof -
  let ?rb = "the (RingBuffer_new 6 2 (addTarget [''ab''] []))"
  have h: "idx_inv ?rb" "[] \<in> set (target ?rb)" "matched_buffer_idx ?rb < 0"
    "0 < nread_of StreamReader_read ?rb (istream_of ''xy'')"
    by code_simp+
  have z: "next_buffer_idx ?rb = 0" by code_simp
  from empty_target_always_matches [OF h, of "[''ab'']" "map Some ''xy''" 2 "[]"]
       empty_target_always_matches [OF h, of "[''ab'']" "[]" 0 "[]"] h z
  show ?thesis by simp
qed

subsection \<open>The driver loop\<close>

text \<open>A run of the bounded loop that ends is a run of the loop.\<close>

lemma scan_for_stops:
  "scan_for k read st = (False, st') \<Longrightarrow> scan read st = Some st'"
proof (induction k arbitrary: st)
  case 0
  then show ?case by simp
next
  case (Suc k)
  obtain again st1 where r: "readFrom read st = (again, st1)"
    by (cases "readFrom read st") auto
  show ?case
  proof (cases again)
    case True
    with Suc.prems r have "scan_for k read st1 = (False, st')" by simp
    then have "scan read st1 = Some st'" by (rule Suc.IH)
    with r True show ?thesis by (subst scan.simps) simp
  next
    case False
    with Suc.prems r have "st1 = st'" by simp
    with r False show ?thesis by (subst scan.simps) simp
  qed
qed

lemma scan_sink:
  "fst (scan_for k read st) = False \<Longrightarrow>
   map_option (\<lambda>(rb, rd, col). col) (scan read st) = Some (sink_after k read st)"
proof -
  assume f: "fst (scan_for k read st) = False"
  obtain rb rd col where s: "scan_for k read st = (False, rb, rd, col)"
    using f by (cases "scan_for k read st") auto
  from scan_for_stops [OF s] s show ?thesis by (simp add: sink_after_def)
qed

text \<open>Over a \<^verbatim>\<open>StreamReader\<close> the loop always ends.\<close>

lemma StreamReader_progress:
  assumes "0 < nread_of StreamReader_read rb s"
  shows "length (rest (snd (StreamReader_read s (buffer_size rb)))) < length (rest s)"
  using assms by (auto simp: nread_of_def StreamReader_read_def Let_def split: if_splits)

lemma scan_for_StreamReader_stops:
  "\<exists>k. \<not> fst (scan_for k StreamReader_read (rb, s, col))"
proof (induction "length (rest s)" arbitrary: rb s col rule: less_induct)
  case less
  obtain again rb1 s1 col1 where
    r: "readFrom StreamReader_read (rb, s, col) = (again, rb1, s1, col1)"
    by (cases "readFrom StreamReader_read (rb, s, col)") auto
  show ?case
  proof (cases again)
    case False
    with r have "\<not> fst (scan_for (Suc 0) StreamReader_read (rb, s, col))" by simp
    then show ?thesis ..
  next
    case True
    with r have n: "0 < nread_of StreamReader_read rb s"
      and s1: "s1 = snd (StreamReader_read s (buffer_size rb))"
      by (simp_all add: readFrom_unfold split: if_splits)
    from StreamReader_progress [OF n] s1 have "length (rest s1) < length (rest s)" by simp
    from less [OF this, of rb1 col1] obtain k where
      "\<not> fst (scan_for k StreamReader_read (rb1, s1, col1))" ..
    with r True have "\<not> fst (scan_for (Suc k) StreamReader_read (rb, s, col))" by simp
    then show ?thesis ..
  qed
qed

lemma scan_StreamReader_returns:
  "\<exists>st'. scan StreamReader_read (rb, s, col) = Some st'"
proof -
  from scan_for_StreamReader_stops [of rb s col] obtain k where
    "\<not> fst (scan_for k StreamReader_read (rb, s, col))" ..
  then obtain st' where "scan_for k StreamReader_read (rb, s, col) = (False, st')"
    by (cases "scan_for k StreamReader_read (rb, s, col)") auto
  then have "scan StreamReader_read (rb, s, col) = Some st'" by (rule scan_for_stops)
  then show ?thesis ..
qed

text \<open>
  C5. The first test of \<^verbatim>\<open>test()\<close>: 4 slots of 4 bytes, target \<^verbatim>\<open>"ab"\<close>, the
  input read 4 bytes at a time until the reader reports exhaustion. The loop ends and
  the collector's stream holds \<^verbatim>\<open>11112222aaab3333cccc5555aaab6666\<close>. The stream
  grows in two cycles only: the fifth sends \<^verbatim>\<open>11112222aaab3333\<close>, the eleventh
  \<^verbatim>\<open>cccc5555aaab6666\<close>.
\<close>

theorem first_test_output:
  "map_option (\<lambda>(rb, rd, col). os_str col)
     (scan StreamReader_read
        (test_setup 4 4 ''000011112222aaab3333bbbb4444cccc5555aaab666677778888''))
     = Some (map Some ''11112222aaab3333cccc5555aaab6666'')
   \<and> map (\<lambda>k. os_str (sink_after k StreamReader_read
                (test_setup 4 4 ''000011112222aaab3333bbbb4444cccc5555aaab666677778888'')))
         [0 ..< 15]
     = replicate 5 [] @ replicate 6 (map Some ''11112222aaab3333'')
         @ replicate 4 (map Some (''11112222aaab3333'' @ ''cccc5555aaab6666''))"
proof -
  let ?st = "test_setup 4 4 ''000011112222aaab3333bbbb4444cccc5555aaab666677778888''"
  have f: "fst (scan_for 14 StreamReader_read ?st) = False" by code_simp
  have o: "os_str (sink_after 14 StreamReader_read ?st)
      = map Some ''11112222aaab3333cccc5555aaab6666''" by code_simp
  from scan_sink [OF f] obtain rb rd where
    "scan StreamReader_read ?st = Some (rb, rd, sink_after 14 StreamReader_read ?st)"
    by auto
  with o have a: "map_option (\<lambda>(rb, rd, col). os_str col) (scan StreamReader_read ?st)
     = Some (map Some ''11112222aaab3333cccc5555aaab6666'')" by simp
  have b: "map (\<lambda>k. os_str (sink_after k StreamReader_read ?st)) [0 ..< 15]
     = replicate 5 [] @ replicate 6 (map Some ''11112222aaab3333'')
         @ replicate 4 (map Some (''11112222aaab3333'' @ ''cccc5555aaab6666''))"
    by code_simp
  from a b show ?thesis by (rule conjI)
qed

subsection \<open>The forced flush at the end of the stream\<close>

text \<open>
  A slot that is not pending can be sent again only by way of the cycle that takes it as
  the slot to read into: any other cycle neither sends it nor makes it pending.
\<close>

lemma flushed_not_pending:
  assumes "idx_inv rb" and "0 \<le> matched_buffer_idx rb"
    and "i < nat (buffer_num rb)" and "\<not> pending rb i"
  shows "\<not> pending ((fst (collectTo (flush_start rb) (rb, col)))\<lparr>matched_buffer_idx := - 1\<rparr>) i"
    and "i \<notin> fst ` set (drop (length col) (snd (collectTo (flush_start rb) (rb, col))))"
proof -
  from flushed_closed [OF assms(1,2), of col] obtain fl where
    fl: "fst (collectTo (flush_start rb) (rb, col)) = rb\<lparr>buffer_print_flag := fl\<rparr>"
      "snd (collectTo (flush_start rb) (rb, col))
          = col @ map (\<lambda>i. (i, buffer rb ! i))
                       (filter (pending rb) (flush_order (flush_start rb) (buffer_num rb)))"
      "\<forall>j < nat (buffer_num rb). fl ! j \<noteq> 0"
    by blast
  from fl(3) assms(3)
  show "\<not> pending ((fst (collectTo (flush_start rb) (rb, col)))\<lparr>matched_buffer_idx := - 1\<rparr>) i"
    unfolding fl(1) by (simp add: pending_def)
  from assms(4)
  show "i \<notin> fst ` set (drop (length col) (snd (collectTo (flush_start rb) (rb, col))))"
    unfolding fl(2) by auto
qed

lemma resend_needs_mark:
  assumes "idx_inv rb" and "i < nat (buffer_num rb)" and "\<not> pending rb i"
    and "i \<noteq> nat (next_buffer_idx rb)"
  shows "case readFrom read (rb, rd, col) of (again, rb', rd', col') \<Rightarrow>
           \<not> pending rb' i \<and> i \<notin> fst ` set (drop (length col) col')"
proof -
  let ?M = "marked read rb rd" and ?P = "probed read rb rd"
  from assms(3,4) have pM: "\<not> pending ?M i" by (simp add: pending_def marked_def mark_def)
  then have pP: "\<not> pending ?P i" by simp
  have iM: "idx_inv ?M" using assms(1) by (rule idx_inv_marked)
  have iP: "idx_inv ?P" using assms(1) by (rule idx_inv_probed)
  from assms(2) have nM: "i < nat (buffer_num ?M)" and nP: "i < nat (buffer_num ?P)" by simp_all
  have fM: "\<not> pending ((fst (collectTo (flush_start ?M) (?M, col)))\<lparr>matched_buffer_idx := - 1\<rparr>) i
      \<and> i \<notin> fst ` set (drop (length col) (snd (collectTo (flush_start ?M) (?M, col))))"
    if "0 \<le> matched_buffer_idx ?M"
    using flushed_not_pending [OF iM that nM pM, of col] by blast
  have fP: "\<not> pending ((fst (collectTo (flush_start ?P) (?P, col)))\<lparr>matched_buffer_idx := - 1\<rparr>) i
      \<and> i \<notin> fst ` set (drop (length col) (snd (collectTo (flush_start ?P) (?P, col))))"
    if "0 \<le> matched_buffer_idx ?P"
    using flushed_not_pending [OF iP that nP pP, of col] by blast
  show ?thesis
    unfolding readFrom_unfold using pM pP fM fP
    by (simp del: marked_fields flush_start_marked pending_probed probed_fields)
qed

text \<open>
  C1. On the input \<^verbatim>\<open>000011112222aaab3333aabb\<close> (4 slots of 4 bytes, target
  \<^verbatim>\<open>"ab"\<close>) slot 2 is sent with \<^verbatim>\<open>2222\<close> by the first flush and is not
  pending after six cycles. The seventh cycle reads nothing, clears the flag of slot 2
  all the same (line 226 comes before the test of line 234), and its forced flush sends
  \<^verbatim>\<open>2222\<close> a second time.
\<close>

theorem flushed_slot_sent_again:
  "sink_after 6 StreamReader_read (test_setup 4 4 ''000011112222aaab3333aabb'')
     = [(1, map Some ''1111''), (2, map Some ''2222''), (3, map Some ''aaab''),
        (0, map Some ''3333'')]
   \<and> \<not> pending (buffer_after 6 StreamReader_read
                    (test_setup 4 4 ''000011112222aaab3333aabb'')) 2
   \<and> map_option (\<lambda>(rb, rd, col). col)
        (scan StreamReader_read (test_setup 4 4 ''000011112222aaab3333aabb''))
     = Some [(1, map Some ''1111''), (2, map Some ''2222''), (3, map Some ''aaab''),
             (0, map Some ''3333''), (1, map Some ''aabb''), (2, map Some ''2222'')]"
proof -
  let ?st = "test_setup 4 4 ''000011112222aaab3333aabb''"
  have f: "fst (scan_for 7 StreamReader_read ?st) = False" by code_simp
  have o: "sink_after 7 StreamReader_read ?st
     = [(1, map Some ''1111''), (2, map Some ''2222''), (3, map Some ''aaab''),
        (0, map Some ''3333''), (1, map Some ''aabb''), (2, map Some ''2222'')]"
    by code_simp
  have a: "sink_after 6 StreamReader_read ?st
     = [(1, map Some ''1111''), (2, map Some ''2222''), (3, map Some ''aaab''),
        (0, map Some ''3333'')]" by code_simp
  have b: "\<not> pending (buffer_after 6 StreamReader_read ?st) 2" by code_simp
  from scan_sink [OF f] o a b show ?thesis by simp
qed

subsection \<open>The size of a flushed window\<close>

text \<open>
  C3, as stated, fails in two ways. In the fourth test of \<^verbatim>\<open>test()\<close> the match is in
  the first slot ever written: the flush is the first one, so it overlaps no earlier
  window, and it sends 8 bytes, not 16. With 3 slots of 2 bytes and the input
  \<^verbatim>\<open>001122ab33\<close> the first flush sends all 3 slots and the matched slot is the
  last of them, at position 2, not at position \<open>3 div 2\<close>.
\<close>

theorem window_size_counterexample:
  "sink_after 1 StreamReader_read (test_setup 4 4 ''aaab0000111122223333bbbb4444cccc'') = []
   \<and> sink_after 2 StreamReader_read (test_setup 4 4 ''aaab0000111122223333bbbb4444cccc'')
       = [(0, map Some ''aaab''), (1, map Some ''0000'')]
   \<and> length (os_str (sink_after 2 StreamReader_read
        (test_setup 4 4 ''aaab0000111122223333bbbb4444cccc''))) \<noteq> 4 * 4
   \<and> sink_after 3 StreamReader_read (test_setup 3 2 ''001122ab33'') = []
   \<and> sink_after 4 StreamReader_read (test_setup 3 2 ''001122ab33'')
       = [(1, map Some ''11''), (2, map Some ''22''), (0, map Some ''ab'')]
   \<and> matched_buffer_idx (buffer_after 4 StreamReader_read (test_setup 3 2 ''001122ab33'')) = - 1
   \<and> sink_after 4 StreamReader_read (test_setup 3 2 ''001122ab33'') ! (3 div 2)
       \<noteq> (0, map Some ''ab'')"
  by code_simp

lemma flush_order_length:
  "0 \<le> start \<Longrightarrow> start \<le> num \<Longrightarrow> length (flush_order start num) = nat num"
  by (simp add: flush_order_def)

lemma wrap_nth:
  fixes s n p :: nat
  assumes "s < n" "p < n"
  shows "([s ..< n] @ [0 ..< s]) ! p = (s + p) mod n"
proof (cases "p < n - s")
  case True
  then have "([s ..< n] @ [0 ..< s]) ! p = s + p" by (simp add: nth_append)
  moreover from True have "(s + p) mod n = s + p" by simp
  ultimately show ?thesis by simp
next
  case False
  with assms have q: "p - (n - s) < s" by simp
  from False have "([s ..< n] @ [0 ..< s]) ! p = [0 ..< s] ! (p - (n - s))"
    by (simp add: nth_append)
  also from q have "\<dots> = p - (n - s)" by simp
  finally have l: "([s ..< n] @ [0 ..< s]) ! p = p - (n - s)" .
  from False assms have ge: "n \<le> s + p" by simp
  then have "(s + p) mod n = (s + p - n) mod n" by (rule le_mod_geq)
  also from assms ge have "\<dots> = s + p - n" by simp
  finally have "(s + p) mod n = s + p - n" .
  with l False assms show ?thesis by simp
qed

lemma centre_position:
  fixes m n :: nat
  assumes "m < n"
  shows "((m + n div 2) mod n + (n - n div 2) mod n) mod n = m"
proof -
  have "((m + n div 2) mod n + (n - n div 2) mod n) mod n
      = ((m + n div 2) + (n - n div 2)) mod n" by (rule mod_add_eq)
  also have "(m + n div 2) + (n - n div 2) = m + n" by simp
  also from assms have "(m + n) mod n = m" by simp
  finally show ?thesis .
qed

lemma nat_flush_start:
  assumes "idx_inv rb" "0 \<le> matched_buffer_idx rb"
  shows "nat (flush_start rb)
     = (nat (matched_buffer_idx rb) + nat (buffer_num rb) div 2) mod nat (buffer_num rb)"
proof -
  from assms have "0 < buffer_num rb" by (simp add: idx_inv_def)
  with assms(2) show ?thesis
    by (simp add: flush_start_def nat_mod_distrib nat_add_distrib nat_div_distrib)
qed

lemma length_concat_const:
  "\<forall>x \<in> set xs. length x = k \<Longrightarrow> length (concat xs) = length xs * k"
  by (induction xs) simp_all

lemma readFrom_flush:
  assumes "idx_inv rb" and "0 < nread_of read rb rd"
    and "0 \<le> matched_buffer_idx (probed read rb rd)"
    and "next_buffer_idx (probed read rb rd) = flush_start (probed read rb rd)"
  shows "fst (readFrom read (rb, rd, col))"
    and "snd (snd (snd (readFrom read (rb, rd, col))))
      = col @ map (\<lambda>i. (i, buffer (probed read rb rd) ! i))
                (filter (pending (probed read rb rd))
                   (flush_order (flush_start (probed read rb rd)) (buffer_num rb)))"
proof -
  let ?P = "probed read rb rd"
  have inv: "idx_inv ?P" using assms(1) by (rule idx_inv_probed)
  from flushed_closed [OF inv assms(3), of col]
  have "snd (collectTo (flush_start ?P) (?P, col))
          = col @ map (\<lambda>i. (i, buffer ?P ! i))
                       (filter (pending ?P) (flush_order (flush_start ?P) (buffer_num ?P)))"
    by blast
  with assms(2,3,4) show "snd (snd (snd (readFrom read (rb, rd, col))))
      = col @ map (\<lambda>i. (i, buffer ?P ! i))
                (filter (pending ?P) (flush_order (flush_start ?P) (buffer_num rb)))"
    by (simp add: readFrom_unfold)
  from assms(2,3,4) show "fst (readFrom read (rb, rd, col))"
    by (simp add: readFrom_unfold)
qed

lemma slot_length_probed:
  assumes "idx_inv rb" "slots_ok rb" "length (bytes_of read rb rd) \<le> nat (buffer_size rb)"
    and "i < nat (buffer_num rb)"
  shows "length (buffer (probed read rb rd) ! i) = nat (buffer_size rb)"
proof -
  from slots_ok_marked [OF assms(1,2,3)] have so: "slots_ok (marked read rb rd)" .
  from idx_inv_marked [OF assms(1), of read rd] assms(4)
  have "i < length (buffer (marked read rb rd))" by (simp add: idx_inv_def)
  then have "buffer (marked read rb rd) ! i \<in> set (buffer (marked read rb rd))" by simp
  with so show ?thesis by (simp add: slots_ok_def)
qed

text \<open>
  C3, amended. When a cycle that read data flushes because the cursor reached the flush
  start, and every slot is pending at that moment, the flush sends exactly \<open>N\<close>
  slots of \<open>S\<close> bytes, \<open>N * S\<close> bytes in all, and the matched slot is at position
  \<open>(N - N div 2) mod N\<close> of them, counted from 0; that is position \<open>N div 2\<close>
  when \<open>N\<close> is even or 1.
\<close>

theorem full_window_flush:
  assumes "idx_inv rb" and "slots_ok rb"
    and "length (bytes_of read rb rd) \<le> nat (buffer_size rb)"
    and "0 < nread_of read rb rd"
    and "0 \<le> matched_buffer_idx (probed read rb rd)"
    and "next_buffer_idx (probed read rb rd) = flush_start (probed read rb rd)"
    and "\<forall>i < nat (buffer_num rb). pending (probed read rb rd) i"
  shows "case readFrom read (rb, rd, col) of (again, rb', rd', col') \<Rightarrow>
     (let N = nat (buffer_num rb); S = nat (buffer_size rb);
          m = nat (matched_buffer_idx (probed read rb rd));
          new = drop (length col) col'
      in again \<and> col' = col @ new
       \<and> length new = N
       \<and> (\<forall>c \<in> set new. length (snd c) = S)
       \<and> length (os_str new) = N * S
       \<and> new ! ((N - N div 2) mod N) = (m, buffer (probed read rb rd) ! m)
       \<and> (even N \<or> N = 1 \<longrightarrow> (N - N div 2) mod N = N div 2))"
proof -
  define P where "P = probed read rb rd"
  define N where "N = nat (buffer_num rb)"
  define S where "S = nat (buffer_size rb)"
  define m where "m = nat (matched_buffer_idx P)"
  define s where "s = nat (flush_start P)"
  define order where "order = flush_order (flush_start P) (buffer_num rb)"
  define new where "new = map (\<lambda>i. (i, buffer P ! i)) order"
  define p where "p = (N - N div 2) mod N"
  have inv: "idx_inv P" unfolding P_def using assms(1) by (rule idx_inv_probed)
  have tr: "0 \<le> matched_buffer_idx P" unfolding P_def by (rule assms(5))
  have NP: "buffer_num P = buffer_num rb" by (simp add: P_def)
  from inv have Npos: "0 < N" by (simp add: idx_inv_def N_def NP)
  from inv tr have mN: "m < N" by (simp add: idx_inv_def N_def NP m_def)
  from flush_start_range [OF inv tr] have r: "0 \<le> flush_start P" "flush_start P < buffer_num rb"
    by (simp_all add: NP)
  then have sN: "s < N" by (simp add: s_def N_def)
  from r have oset: "set order = {0 ..< N}"
    unfolding order_def N_def by (intro flush_order_set) simp_all
  from r have olen: "length order = N"
    unfolding order_def N_def by (intro flush_order_length) simp_all
  have oeq: "order = [s ..< N] @ [0 ..< s]"
    by (simp add: order_def flush_order_def s_def N_def)
  from nat_flush_start [OF inv tr] have s_eq: "s = (m + N div 2) mod N"
    by (simp add: s_def m_def N_def NP)
  have all: "filter (pending P) order = order"
    using assms(7) oset by (simp add: P_def N_def)
  have sink: "snd (snd (snd (readFrom read (rb, rd, col)))) = col @ new"
    using readFrom_flush(2) [OF assms(1,4,5,6), of col] all
    by (simp add: new_def order_def P_def)
  have again: "fst (readFrom read (rb, rd, col))"
    using assms(1,4,5,6) by (rule readFrom_flush(1))
  have len: "length new = N" by (simp add: new_def olen)
  have sz: "\<forall>c \<in> set new. length (snd c) = S"
  proof
    fix c assume "c \<in> set new"
    then obtain i where "c = (i, buffer P ! i)" "i \<in> set order" unfolding new_def by auto
    with oset slot_length_probed [OF assms(1,2,3), of i] show "length (snd c) = S"
      by (simp add: P_def N_def S_def)
  qed
  then have "\<forall>x \<in> set (map snd new). length x = S" by simp
  then have "length (concat (map snd new)) = length (map snd new) * S"
    by (rule length_concat_const)
  with len have bytes: "length (os_str new) = N * S" by (simp add: os_str_def)
  from Npos have pN: "p < N" by (simp add: p_def)
  have "order ! p = (s + p) mod N" unfolding oeq using sN pN by (rule wrap_nth)
  also have "\<dots> = m" unfolding s_eq p_def using mN by (rule centre_position)
  finally have "order ! p = m" .
  with pN olen have pos: "new ! p = (m, buffer P ! m)" by (simp add: new_def)
  have ev: "even N \<or> N = 1 \<longrightarrow> p = N div 2"
  proof
    assume "even N \<or> N = 1"
    then show "p = N div 2"
    proof
      assume "even N"
      then obtain k where k: "N = 2 * k" by (auto elim: evenE)
      with Npos show ?thesis by (simp add: p_def)
    next
      assume "N = 1"
      then show ?thesis by (simp add: p_def)
    qed
  qed
  obtain again' rb' rd' col' where res: "readFrom read (rb, rd, col) = (again', rb', rd', col')"
    by (cases "readFrom read (rb, rd, col)") auto
  from res sink again have c: "col' = col @ new" "again'" by simp_all
  have "again' \<and> col' = col @ drop (length col) col'
       \<and> length (drop (length col) col') = N
       \<and> (\<forall>c \<in> set (drop (length col) col'). length (snd c) = S)
       \<and> length (os_str (drop (length col) col')) = N * S
       \<and> drop (length col) col' ! p = (m, buffer P ! m)
       \<and> (even N \<or> N = 1 \<longrightarrow> p = N div 2)"
    using c len sz bytes pos ev by simp
  then show ?thesis
    unfolding res p_def m_def S_def N_def P_def by (simp add: Let_def)
qed

theorem full_window_flush_witness:
  "idx_inv tracking_rb \<and> slots_ok tracking_rb
   \<and> length (bytes_of StreamReader_read tracking_rb (istream_of ''3333bbbb''))
        \<le> nat (buffer_size tracking_rb)
   \<and> 0 < nread_of StreamReader_read tracking_rb (istream_of ''3333bbbb'')
   \<and> 0 \<le> matched_buffer_idx (probed StreamReader_read tracking_rb (istream_of ''3333bbbb''))
   \<and> next_buffer_idx (probed StreamReader_read tracking_rb (istream_of ''3333bbbb''))
       = flush_start (probed StreamReader_read tracking_rb (istream_of ''3333bbbb''))
   \<and> pending (probed StreamReader_read tracking_rb (istream_of ''3333bbbb'')) 0
   \<and> pending (probed StreamReader_read tracking_rb (istream_of ''3333bbbb'')) 1
   \<and> pending (probed StreamReader_read tracking_rb (istream_of ''3333bbbb'')) 2
   \<and> pending (probed StreamReader_read tracking_rb (istream_of ''3333bbbb'')) 3
   \<and> length (os_str (snd (snd (snd
         (readFrom StreamReader_read (tracking_rb, istream_of ''3333bbbb'', [])))))) = 4 * 4
   \<and> snd (snd (snd (readFrom StreamReader_read (tracking_rb, istream_of ''3333bbbb'', [])))) ! 2
       = (3, map Some ''aaab'')"
proof -
  let ?rd = "istream_of ''3333bbbb''"
  have h: "idx_inv tracking_rb" "slots_ok tracking_rb"
    "length (bytes_of StreamReader_read tracking_rb ?rd) \<le> nat (buffer_size tracking_rb)"
    "0 < nread_of StreamReader_read tracking_rb ?rd"
    "0 \<le> matched_buffer_idx (probed StreamReader_read tracking_rb ?rd)"
    "next_buffer_idx (probed StreamReader_read tracking_rb ?rd)
       = flush_start (probed StreamReader_read tracking_rb ?rd)"
    "\<forall>i < nat (buffer_num tracking_rb). pending (probed StreamReader_read tracking_rb ?rd) i"
    by code_simp+
  have v: "nat (buffer_num tracking_rb) = 4" "nat (buffer_size tracking_rb) = 4"
    "nat (matched_buffer_idx (probed StreamReader_read tracking_rb ?rd)) = 3"
    "buffer (marked StreamReader_read tracking_rb ?rd) ! 3 = map Some ''aaab''"
    by code_simp+
  have p: "pending (probed StreamReader_read tracking_rb ?rd) 0"
    "pending (probed StreamReader_read tracking_rb ?rd) 1"
    "pending (probed StreamReader_read tracking_rb ?rd) 2"
    "pending (probed StreamReader_read tracking_rb ?rd) 3"
    by code_simp+
  from full_window_flush [OF h, of "[]"]
  have "length (os_str (snd (snd (snd
         (readFrom StreamReader_read (tracking_rb, ?rd, [])))))) = 4 * 4
   \<and> snd (snd (snd (readFrom StreamReader_read (tracking_rb, ?rd, [])))) ! 2
       = (3, map Some ''aaab'')"
    by (simp add: Let_def v split: prod.splits)
  with h(1-6) p show ?thesis by simp
qed

subsection \<open>Slots the cursor has not reached\<close>

text \<open>
  C6, as stated, fails. The constructor sets every flag to 1, which the source reads as
  printed: no slot is pending after construction. And on the input \<^verbatim>\<open>aaab\<close> the
  second cycle reads nothing into slot 1, yet the forced flush sends slot 1 with the
  bytes the allocation left there.
\<close>

theorem initial_flags_counterexample:
  "\<not> pending (the (RingBuffer_new 4 4 [''ab''])) 0
   \<and> (1, replicate 4 None) \<in> set (sink_after 2 StreamReader_read (test_setup 4 4 ''aaab''))"
  by code_simp

lemma untouched_marked:
  assumes "untouched k init rb"
  shows "untouched (Suc k) init (marked read rb rd)"
proof -
  let ?M = "marked read rb rd"
  from assms have inv: "idx_inv rb" by (simp add: untouched_def)
  have iM: "idx_inv ?M" using inv by (rule idx_inv_marked)
  have nx: "next_buffer_idx ?M = int (Suc k)" if "Suc k < nat (buffer_num rb)"
  proof -
    from that assms have "next_buffer_idx rb = int k" by (simp add: untouched_def)
    moreover from that have "(int k + 1) mod buffer_num rb = int k + 1" by simp
    ultimately show ?thesis by simp
  qed
  have keep: "buffer_print_flag ?M ! i \<noteq> 0 \<and> buffer ?M ! i = init"
    if "Suc k \<le> i" "i < nat (buffer_num rb)" for i
  proof -
    from that have "k < nat (buffer_num rb)" by simp
    with assms have "next_buffer_idx rb = int k" by (simp add: untouched_def)
    with that have ne: "nat (next_buffer_idx rb) \<noteq> i" by simp
    from that assms have "buffer_print_flag rb ! i \<noteq> 0 \<and> buffer rb ! i = init"
      by (simp add: untouched_def)
    with ne show ?thesis by (simp add: marked_def mark_def)
  qed
  from iM nx keep show ?thesis by (simp add: untouched_def)
qed

lemma untouched_probed:
  assumes "untouched k init rb"
  shows "untouched (Suc k) init (probed read rb rd)"
proof -
  from assms have "idx_inv rb" by (simp add: untouched_def)
  then have "idx_inv (probed read rb rd)" by (rule idx_inv_probed)
  with untouched_marked [OF assms, of read rd] show ?thesis
    by (simp add: untouched_def)
qed

lemma untouched_flushed:
  assumes "untouched j init rb" and "0 \<le> matched_buffer_idx rb"
    and "\<forall>c \<in> set col. fst c < j"
  shows "untouched j init
           ((fst (collectTo (flush_start rb) (rb, col)))\<lparr>matched_buffer_idx := - 1\<rparr>)"
    and "\<forall>c \<in> set (snd (collectTo (flush_start rb) (rb, col))). fst c < j"
proof -
  from assms(1) have inv: "idx_inv rb" by (simp add: untouched_def)
  from flushed_closed [OF inv assms(2), of col] obtain fl where
    fl: "fst (collectTo (flush_start rb) (rb, col)) = rb\<lparr>buffer_print_flag := fl\<rparr>"
      "snd (collectTo (flush_start rb) (rb, col))
          = col @ map (\<lambda>i. (i, buffer rb ! i))
                       (filter (pending rb) (flush_order (flush_start rb) (buffer_num rb)))"
      "\<forall>j < nat (buffer_num rb). fl ! j \<noteq> 0"
    by blast
  have "idx_inv ((fst (collectTo (flush_start rb) (rb, col)))\<lparr>matched_buffer_idx := - 1\<rparr>)"
    using inv assms(2) by (rule idx_inv_flushed)
  with assms(1) fl(3)
  show "untouched j init
           ((fst (collectTo (flush_start rb) (rb, col)))\<lparr>matched_buffer_idx := - 1\<rparr>)"
    unfolding fl(1) by (simp add: untouched_def)
  from flush_start_range [OF inv assms(2)]
  have os: "set (flush_order (flush_start rb) (buffer_num rb)) = {0 ..< nat (buffer_num rb)}"
    by (intro flush_order_set) simp_all
  have "i < j" if "i \<in> set (flush_order (flush_start rb) (buffer_num rb))" "pending rb i" for i
  proof (rule ccontr)
    assume "\<not> i < j"
    with that(1) os assms(1) have "buffer_print_flag rb ! i \<noteq> 0"
      by (simp add: untouched_def)
    with that(2) show False by (simp add: pending_def)
  qed
  with assms(3) show "\<forall>c \<in> set (snd (collectTo (flush_start rb) (rb, col))). fst c < j"
    unfolding fl(2) by auto
qed

lemma untouched_step:
  assumes "untouched k init rb" and "\<forall>c \<in> set col. fst c < k"
  shows "case readFrom read (rb, rd, col) of (again, rb', rd', col') \<Rightarrow>
           untouched (Suc k) init rb' \<and> (\<forall>c \<in> set col'. fst c < Suc k)"
proof -
  note M = untouched_marked [OF assms(1), of read rd]
  note P = untouched_probed [OF assms(1), of read rd]
  from assms(2) have c: "\<forall>c \<in> set col. fst c < Suc k" by auto
  have fM: "untouched (Suc k) init
       ((fst (collectTo (flush_start (marked read rb rd)) (marked read rb rd, col)))
           \<lparr>matched_buffer_idx := - 1\<rparr>)
     \<and> (\<forall>c \<in> set (snd (collectTo (flush_start (marked read rb rd)) (marked read rb rd, col))).
           fst c < Suc k)"
    if "0 \<le> matched_buffer_idx (marked read rb rd)"
    using untouched_flushed [OF M that c] by blast
  have fP: "untouched (Suc k) init
       ((fst (collectTo (flush_start (probed read rb rd)) (probed read rb rd, col)))
           \<lparr>matched_buffer_idx := - 1\<rparr>)
     \<and> (\<forall>c \<in> set (snd (collectTo (flush_start (probed read rb rd)) (probed read rb rd, col))).
           fst c < Suc k)"
    if "0 \<le> matched_buffer_idx (probed read rb rd)"
    using untouched_flushed [OF P that c] by blast
  show ?thesis
    unfolding readFrom_unfold using M P c fM fP by (simp del: marked_fields flush_start_marked)
qed

lemma untouched_scan_for:
  "untouched k init rb \<Longrightarrow> \<forall>c \<in> set col. fst c < k \<Longrightarrow>
   (case scan_for n read (rb, rd, col) of (again, rb', rd', col') \<Rightarrow>
      \<exists>j \<le> k + n. untouched j init rb' \<and> (\<forall>c \<in> set col'. fst c < j))"
proof (induction n arbitrary: k rb rd col)
  case 0
  then show ?case by auto
next
  case (Suc n)
  obtain again rb1 rd1 col1 where r: "readFrom read (rb, rd, col) = (again, rb1, rd1, col1)"
    by (cases "readFrom read (rb, rd, col)") auto
  from untouched_step [OF Suc.prems, of read rd] r
  have s: "untouched (Suc k) init rb1" "\<forall>c \<in> set col1. fst c < Suc k" by simp_all
  show ?case
  proof (cases again)
    case False
    have "Suc k \<le> k + Suc n" by simp
    with s have "\<exists>j \<le> k + Suc n. untouched j init rb1 \<and> (\<forall>c \<in> set col1. fst c < j)"
      by blast
    with r False show ?thesis by simp
  next
    case True
    from Suc.IH [OF s, of rd1] r True show ?thesis by (simp split: prod.splits)
  qed
qed

lemma collectTo_buffer_num: "buffer_num (fst (collectTo start (rb, col))) = buffer_num rb"
  using shape_collectTo [of start rb col] by (simp add: shape_def)

lemma readFrom_buffer_num:
  "buffer_num (fst (snd (readFrom read (rb, rd, col)))) = buffer_num rb"
  by (simp add: readFrom_unfold collectTo_buffer_num)

lemma scan_for_buffer_num:
  "buffer_num (fst (snd (scan_for n read (rb, rd, col)))) = buffer_num rb"
proof (induction n arbitrary: rb rd col)
  case 0
  show ?case by simp
next
  case (Suc n)
  obtain again rb1 rd1 col1 where r: "readFrom read (rb, rd, col) = (again, rb1, rd1, col1)"
    by (cases "readFrom read (rb, rd, col)") auto
  from readFrom_buffer_num [of read rb rd col] r have "buffer_num rb1 = buffer_num rb" by simp
  with Suc.IH [of rb1 rd1 col1] r show ?case by (cases again) simp_all
qed

lemma untouched_new:
  "RingBuffer_new num sz tgt = Some rb \<Longrightarrow> untouched 0 (replicate (nat sz) None) rb"
  by (auto simp: RingBuffer_new_def untouched_def idx_inv_def split: if_splits)

text \<open>
  C6, amended. After construction no slot is pending. A slot is sent only after a cycle
  has taken it as the slot to read into: after at most \<open>k\<close> cycles from construction,
  with any reader, every slot with index \<open>k\<close> or more is not pending and holds what
  the allocation left, and every \<^verbatim>\<open>collect\<close> call so far passed a slot with index
  below \<open>k\<close>.
\<close>

theorem unselected_slots_never_sent:
  assumes "RingBuffer_new num sz tgt = Some rb0"
  shows "(\<forall>i < nat num. \<not> pending rb0 i)
    \<and> (\<forall>i. k \<le> i \<and> i < nat num \<longrightarrow>
           \<not> pending (buffer_after k read (rb0, rd, [])) i
           \<and> buffer (buffer_after k read (rb0, rd, [])) ! i = replicate (nat sz) None)
    \<and> (\<forall>c \<in> set (sink_after k read (rb0, rd, [])). fst c < k)"
proof -
  note u = untouched_new [OF assms]
  from assms have N: "buffer_num rb0 = num"
    by (auto simp: RingBuffer_new_def split: if_splits)
  from u N have a: "\<forall>i < nat num. \<not> pending rb0 i"
    by (simp add: untouched_def pending_def)
  obtain again rb rd' col where r: "scan_for k read (rb0, rd, []) = (again, rb, rd', col)"
    by (cases "scan_for k read (rb0, rd, [])") auto
  from untouched_scan_for [OF u, of "[]" k read rd] r
  obtain j where j: "j \<le> k" "untouched j (replicate (nat sz) None) rb" "\<forall>c \<in> set col. fst c < j"
    by auto
  from scan_for_buffer_num [of k read rb0 rd "[]"] r N have Nr: "buffer_num rb = num" by simp
  have b: "\<not> pending rb i \<and> buffer rb ! i = replicate (nat sz) None"
    if "k \<le> i" "i < nat num" for i
  proof -
    from that j(1) have "j \<le> i" by simp
    with j(2) that(2) Nr show ?thesis by (simp add: untouched_def pending_def)
  qed
  have c: "\<forall>c \<in> set col. fst c < k" using j(1,3) by auto
  from a b c show ?thesis by (simp add: buffer_after_def sink_after_def r)
qed

theorem unselected_slots_never_sent_witness:
  "RingBuffer_new 4 4 [''ab'']
       = Some \<lparr>buffer = replicate 4 (replicate 4 None), buffer_num = 4, buffer_size = 4,
               next_buffer_idx = 0, matched_buffer_idx = - 1, target = [''ab''],
               buffer_print_flag = [1, 1, 1, 1]\<rparr>
   \<and> sink_after 2 StreamReader_read (the (RingBuffer_new 4 4 [''ab'']), istream_of ''aaab0000'', [])
       = [(0, map Some ''aaab''), (1, map Some ''0000'')]
   \<and> \<not> pending (buffer_after 2 StreamReader_read
                    (the (RingBuffer_new 4 4 [''ab'']), istream_of ''aaab0000'', [])) 2
   \<and> \<not> pending (buffer_after 2 StreamReader_read
                    (the (RingBuffer_new 4 4 [''ab'']), istream_of ''aaab0000'', [])) 3
   \<and> buffer (buffer_after 2 StreamReader_read
                (the (RingBuffer_new 4 4 [''ab'']), istream_of ''aaab0000'', [])) ! 3
       = replicate 4 None"
proof -
  let ?rb0 = "\<lparr>buffer = replicate 4 (replicate 4 None), buffer_num = 4, buffer_size = 4,
               next_buffer_idx = 0, matched_buffer_idx = - 1, target = [''ab''],
               buffer_print_flag = [1, 1, 1, 1]\<rparr>"
  let ?b = "buffer_after 2 StreamReader_read (?rb0, istream_of ''aaab0000'', [])"
  have n: "RingBuffer_new 4 4 [''ab''] = Some ?rb0" by code_simp
  have s: "sink_after 2 StreamReader_read (the (RingBuffer_new 4 4 [''ab'']), istream_of ''aaab0000'', [])
       = [(0, map Some ''aaab''), (1, map Some ''0000'')]" by code_simp
  from unselected_slots_never_sent [OF n, where k = 2 and read = StreamReader_read
      and rd = "istream_of ''aaab0000''"]
  have "\<not> pending ?b 2 \<and> \<not> pending ?b 3 \<and> buffer ?b ! 3 = replicate 4 None"
    by simp
  with n s show ?thesis by simp
qed

end
